theory Spec2Isabelle
  imports Main
begin

section \<open>Binary expression trees: infix and postfix conversion\<close>

text \<open>
  A shallow embedding of \<^verbatim>\<open>binary_expression_tree.py\<close>. A Python \<^verbatim>\<open>str\<close> is a
  \<^typ>\<open>string\<close>; one \<^typ>\<open>char\<close> stands for one Python character with a code point
  below 256. Exceptions are values of the type \<open>error\<close>, and every function that can
  raise returns \<open>error + 'a\<close>. Python's recursion limit is not modelled.
\<close>

subsection \<open>Characters\<close>

text \<open>
  \<^verbatim>\<open>str.isnumeric\<close> on the code points below 256: the ten decimal digits, the
  superscripts U+00B2, U+00B3, U+00B9 and the fractions U+00BC, U+00BD, U+00BE.
\<close>

definition isnumeric :: "char \<Rightarrow> bool" where
  "isnumeric c \<longleftrightarrow>
     c \<in> set (''0123456789'' @ [CHR 0xB2, CHR 0xB3, CHR 0xB9, CHR 0xBC, CHR 0xBD, CHR 0xBE])"

subsection \<open>The tokenizer \<^verbatim>\<open>get_symbols\<close>\<close>

text \<open>
  The generator's loop over \<^verbatim>\<open>enumerate(text)\<close>: the remaining characters, the index
  \<open>i\<close> of the first of them, and the local variables \<^verbatim>\<open>symbol\<close> and
  \<^verbatim>\<open>symbol_index\<close>. The result is the list of the values yielded with
  \<^verbatim>\<open>indices=True\<close>, in order.
\<close>

fun get_symbols_loop :: "string \<Rightarrow> nat \<Rightarrow> string \<Rightarrow> nat \<Rightarrow> (string \<times> nat) list" where
  "get_symbols_loop [] i symbol symbol_index =
     (if symbol \<noteq> [] then [(symbol, symbol_index)] else [])"
| "get_symbols_loop (char # rest) i symbol symbol_index =
     (if isnumeric char then get_symbols_loop rest (i + 1) (symbol @ [char]) symbol_index
      else (if symbol \<noteq> [] then [(symbol, symbol_index)] else [])
         @ (if char \<noteq> CHR '' '' then [([char], i)] else [])
         @ get_symbols_loop rest (i + 1) [] (i + 1))"

text \<open>\<^verbatim>\<open>get_symbols(text, indices=True)\<close>.\<close>

definition get_symbols_indices :: "string \<Rightarrow> (string \<times> nat) list" where
  "get_symbols_indices text = get_symbols_loop text 0 [] 0"

text \<open>\<^verbatim>\<open>get_symbols(text)\<close>: the same loop yields the symbols without their indices.\<close>

definition get_symbols :: "string \<Rightarrow> string list" where
  "get_symbols text = map fst (get_symbols_loop text 0 [] 0)"

subsection \<open>Nodes and trees\<close>

text \<open>\<^verbatim>\<open>class Node\<close>: the data and two children, each of which may be \<^verbatim>\<open>None\<close>.\<close>

datatype node = Node (data: string) (left: "node option") (right: "node option")

datatype binary_expression_tree = BinaryExpressionTree (root: node)

datatype error = IndexError | TypeError

definition OPERATORS :: "string list" where
  "OPERATORS = [''/'', ''*'', ''+'', ''-'']"

subsection \<open>\<^verbatim>\<open>from_postfix\<close>\<close>

text \<open>
  The stack is a Python list: \<^verbatim>\<open>append\<close> adds at the end and \<^verbatim>\<open>pop\<close> removes the
  last element, raising \<^verbatim>\<open>IndexError\<close> on the empty list.
\<close>

definition pop :: "'a list \<Rightarrow> error + ('a \<times> 'a list)" where
  "pop stack = (if stack = [] then Inl IndexError else Inr (last stack, butlast stack))"

definition postfix_step :: "node list \<Rightarrow> string \<Rightarrow> error + node list" where
  "postfix_step stack symbol =
     (if symbol \<in> set OPERATORS then
        (case pop stack of
           Inl e \<Rightarrow> Inl e
         | Inr (r, stack1) \<Rightarrow>
             (case pop stack1 of
                Inl e \<Rightarrow> Inl e
              | Inr (l, stack2) \<Rightarrow> Inr (stack2 @ [Node symbol (Some l) (Some r)])))
      else Inr (stack @ [Node symbol None None]))"

fun postfix_loop :: "string list \<Rightarrow> node list \<Rightarrow> error + node list" where
  "postfix_loop [] stack = Inr stack"
| "postfix_loop (symbol # symbols) stack =
     (case postfix_step stack symbol of
        Inl e \<Rightarrow> Inl e
      | Inr stack' \<Rightarrow> postfix_loop symbols stack')"

definition from_postfix :: "string \<Rightarrow> error + binary_expression_tree" where
  "from_postfix text =
     (case postfix_loop (get_symbols text) [] of
        Inl e \<Rightarrow> Inl e
      | Inr stack \<Rightarrow>
          (case pop stack of
             Inl e \<Rightarrow> Inl e
           | Inr (n, stack') \<Rightarrow> Inr (BinaryExpressionTree n)))"

subsection \<open>\<^verbatim>\<open>from_infix\<close>\<close>

text \<open>The local variables of the scan for the lowest operator.\<close>

record scan_state =
  lowest_operator :: int
  lowest_operator_index :: "nat option"
  brackets_level :: int
  lowest_operator_brackets_level :: int

definition scan_init :: scan_state where
  "scan_init = \<lparr>lowest_operator = -1, lowest_operator_index = None,
                brackets_level = 0, lowest_operator_brackets_level = -1\<rparr>"

text \<open>
  \<^verbatim>\<open>operators.index(symbol)\<close>, called only under \<^verbatim>\<open>symbol in operators\<close>: the position
  of the first element equal to \<open>symbol\<close>.
\<close>

definition operators_index :: "string \<Rightarrow> int" where
  "operators_index symbol = int (length (takeWhile (\<lambda>x. x \<noteq> symbol) OPERATORS))"

definition scan_step :: "scan_state \<Rightarrow> string \<times> nat \<Rightarrow> scan_state" where
  "scan_step st p =
     (case p of (symbol, i) \<Rightarrow>
        if symbol = ''('' then st\<lparr>brackets_level := brackets_level st + 1\<rparr>
        else if symbol = '')'' then st\<lparr>brackets_level := brackets_level st - 1\<rparr>
        else if lowest_operator_brackets_level st = -1
                \<or> brackets_level st \<le> lowest_operator_brackets_level st then
          (if symbol \<in> set OPERATORS then
             (if brackets_level st < lowest_operator_brackets_level st
                 \<or> operators_index symbol \<ge> lowest_operator st then
                st\<lparr>lowest_operator := operators_index symbol,
                   lowest_operator_index := Some i,
                   lowest_operator_brackets_level := brackets_level st\<rparr>
              else st)
           else st)
        else st)"

definition scan :: "string \<Rightarrow> scan_state" where
  "scan text = foldl scan_step scan_init (get_symbols_indices text)"

text \<open>
  The fallback loop: the first symbol for which \<^verbatim>\<open>symbol not in "()"\<close> holds. On
  strings \<^verbatim>\<open>in\<close> is the substring test, and the substrings of \<^verbatim>\<open>"()"\<close> are the four
  listed.
\<close>

definition in_parens :: "string \<Rightarrow> bool" where
  "in_parens symbol \<longleftrightarrow> symbol \<in> set [[], ''('', '')'', ''()'']"

definition first_operand :: "string list \<Rightarrow> string option" where
  "first_operand symbols = find (\<lambda>symbol. \<not> in_parens symbol) symbols"

text \<open>
  \<^verbatim>\<open>operators[lowest_operator]\<close>: indexing a Python list with an integer, negative
  indices counting from the end.
\<close>

definition operators_at :: "int \<Rightarrow> error + string" where
  "operators_at k =
     (let n = int (length OPERATORS); j = (if k < 0 then n + k else k)
      in if 0 \<le> j \<and> j < n then Inr (OPERATORS ! nat j) else Inl IndexError)"

text \<open>
  Every index the tokenizer yields lies inside the text, so the two slices of
  \<^verbatim>\<open>from_infix\<close> are shorter than the text and the recursion ends.
\<close>

lemma get_symbols_loop_index_bound:
  "symbol_index \<le> i \<Longrightarrow> (symbol \<noteq> [] \<longrightarrow> symbol_index < i) \<Longrightarrow>
   (s, j) \<in> set (get_symbols_loop text i symbol symbol_index) \<Longrightarrow> j < i + length text"
proof (induction "text" arbitrary: i symbol symbol_index)
  case Nil
  then show ?case by (simp split: if_splits)
next
  case (Cons c cs)
  show ?case
  proof (cases "isnumeric c")
    case True
    with Cons.prems have "(s, j) \<in> set (get_symbols_loop cs (i + 1) (symbol @ [c]) symbol_index)"
      by simp
    moreover have "symbol_index \<le> i + 1" "symbol @ [c] \<noteq> [] \<longrightarrow> symbol_index < i + 1"
      using Cons.prems by simp_all
    ultimately have "j < (i + 1) + length cs" by (rule Cons.IH[rotated 2])
    then show ?thesis by simp
  next
    case False
    with Cons.prems have "(s, j) = (symbol, symbol_index) \<and> symbol \<noteq> [] \<or> (s, j) = ([c], i)
        \<or> (s, j) \<in> set (get_symbols_loop cs (i + 1) [] (i + 1))"
      by (auto split: if_splits)
    then show ?thesis
    proof (elim disjE)
      assume "(s, j) \<in> set (get_symbols_loop cs (i + 1) [] (i + 1))"
      then have "j < (i + 1) + length cs" by (rule Cons.IH[rotated 2]) simp_all
      then show ?thesis by simp
    qed (use Cons.prems in auto)
  qed
qed

lemma scan_step_index:
  "lowest_operator_index (scan_step st (s, j)) = Some k \<Longrightarrow>
   lowest_operator_index st = Some k \<or> k = j"
  by (auto simp: scan_step_def split: if_splits)

lemma foldl_scan_step_index:
  "lowest_operator_index (foldl scan_step st syms) = Some k \<Longrightarrow>
   lowest_operator_index st = Some k \<or> k \<in> snd ` set syms"
proof (induction syms arbitrary: st)
  case Nil
  then show ?case by simp
next
  case (Cons p ps)
  obtain s j where p: "p = (s, j)" by (cases p)
  from Cons.prems have "lowest_operator_index (foldl scan_step (scan_step st p) ps) = Some k"
    by simp
  from Cons.IH[OF this] show ?case
    using scan_step_index[of st s j k] p by force
qed

lemma scan_index_bound:
  assumes "lowest_operator_index (scan text) = Some k"
  shows "k < length text"
proof -
  from foldl_scan_step_index[OF assms[unfolded scan_def]]
  obtain s where "(s, k) \<in> set (get_symbols_indices text)"
    by (auto simp: scan_init_def)
  then show ?thesis
    using get_symbols_loop_index_bound[of 0 0 "[]" s k "text"]
    by (simp add: get_symbols_indices_def)
qed

text \<open>
  \<^verbatim>\<open>from_infix\<close>. With no operator found, the fallback loop returns the first
  symbol outside \<^verbatim>\<open>"()"\<close>; when it finds none, control reaches
  \<^verbatim>\<open>text[lowest_operator_index + 1:]\<close> with \<^verbatim>\<open>None\<close>, which raises
  \<^verbatim>\<open>TypeError\<close>. Otherwise \<^verbatim>\<open>text[:i]\<close> and \<^verbatim>\<open>text[i + 1:]\<close> are built in this
  order, an exception of either call propagating.
\<close>

function from_infix :: "string \<Rightarrow> error + binary_expression_tree" where
  "from_infix text =
     (case lowest_operator_index (scan text) of
        None \<Rightarrow>
          (case first_operand (get_symbols text) of
             Some symbol \<Rightarrow> Inr (BinaryExpressionTree (Node symbol None None))
           | None \<Rightarrow> Inl TypeError)
      | Some i \<Rightarrow>
          (case from_infix (take i text) of
             Inl e \<Rightarrow> Inl e
           | Inr l \<Rightarrow>
               (case from_infix (drop (i + 1) text) of
                  Inl e \<Rightarrow> Inl e
                | Inr r \<Rightarrow>
                    (case operators_at (lowest_operator (scan text)) of
                       Inl e \<Rightarrow> Inl e
                     | Inr symbol \<Rightarrow>
                         Inr (BinaryExpressionTree
                                (Node symbol (Some (root l)) (Some (root r))))))))"
  by pat_completeness auto
termination
proof (relation "measure length")
  show "wf (measure length)" by simp
next
  fix xs i
  assume "lowest_operator_index (scan xs) = Some i"
  then have "i < length xs" by (rule scan_index_bound)
  then show "(take i xs, xs) \<in> measure length" by simp
next
  fix xs i l
  assume "lowest_operator_index (scan xs) = Some i"
  then have "i < length xs" by (rule scan_index_bound)
  then show "(drop (i + 1) xs, xs) \<in> measure length" by simp
qed

declare from_infix.simps [simp del]

subsection \<open>Traversal\<close>

text \<open>
  \<^verbatim>\<open>get_postfix\<close> and \<^verbatim>\<open>get_infix\<close> on a given node; a \<^verbatim>\<open>Node\<close> object is always
  true in a condition, so \<^verbatim>\<open>if root.left\<close> tests for \<^verbatim>\<open>None\<close>.
\<close>

fun get_postfix_node :: "node \<Rightarrow> string" where
  "get_postfix_node (Node d l r) =
     (case l of None \<Rightarrow> [] | Some n \<Rightarrow> get_postfix_node n @ '' '')
   @ (case r of None \<Rightarrow> [] | Some n \<Rightarrow> get_postfix_node n @ '' '')
   @ d"

fun get_infix_node :: "node \<Rightarrow> string" where
  "get_infix_node (Node d l r) =
     (let result = (case l of None \<Rightarrow> [] | Some n \<Rightarrow> get_infix_node n @ '' '') @ d
                 @ (case r of None \<Rightarrow> [] | Some n \<Rightarrow> '' '' @ get_infix_node n)
      in if l \<noteq> None \<or> r \<noteq> None then ''('' @ result @ '')'' else result)"

text \<open>The methods themselves: \<^verbatim>\<open>root=None\<close> stands for the root of the tree.\<close>

definition get_postfix :: "binary_expression_tree \<Rightarrow> node option \<Rightarrow> string" where
  "get_postfix self root_arg =
     get_postfix_node (case root_arg of None \<Rightarrow> root self | Some n \<Rightarrow> n)"

definition get_infix :: "binary_expression_tree \<Rightarrow> node option \<Rightarrow> string" where
  "get_infix self root_arg =
     get_infix_node (case root_arg of None \<Rightarrow> root self | Some n \<Rightarrow> n)"

section \<open>Predicates of the properties\<close>

subsection \<open>Symbols and the shape of a tree\<close>

text \<open>
  The two kinds of symbol the tokenizer yields: a non-empty run of numeric characters,
  or one character that is neither numeric nor the space. What \<^verbatim>\<open>from_postfix\<close> puts
  into a node without children is a symbol other than the four operators; what
  \<^verbatim>\<open>from_infix\<close> puts there is, moreover, no parenthesis.
\<close>

definition is_symbol :: "string \<Rightarrow> bool" where
  "is_symbol s \<longleftrightarrow>
     (s \<noteq> [] \<and> list_all isnumeric s)
     \<or> (length s = 1 \<and> \<not> isnumeric (hd s) \<and> hd s \<noteq> CHR '' '')"

definition leaf_symbol :: "string \<Rightarrow> bool" where
  "leaf_symbol s \<longleftrightarrow> is_symbol s \<and> s \<notin> set OPERATORS"

definition infix_leaf_symbol :: "string \<Rightarrow> bool" where
  "infix_leaf_symbol s \<longleftrightarrow> leaf_symbol s \<and> \<not> in_parens s"

text \<open>
  \<open>tree_inv P n\<close>: every node below \<open>n\<close> has no child and data satisfying \<open>P\<close>,
  or two children and an operator as data.
\<close>

fun tree_inv :: "(string \<Rightarrow> bool) \<Rightarrow> node \<Rightarrow> bool" where
  "tree_inv P (Node d None None) = P d"
| "tree_inv P (Node d (Some l) (Some r)) = (d \<in> set OPERATORS \<and> tree_inv P l \<and> tree_inv P r)"
| "tree_inv P (Node d None (Some r)) = False"
| "tree_inv P (Node d (Some l) None) = False"

subsection \<open>Leaves, internal nodes and operands\<close>

text \<open>
  The specification's symbols: a numeric literal is a non-empty sequence of decimal
  digits, and it is what the specification calls an operand; a parenthesis and an
  operator are symbols of their own kinds. The characters of an expression are the
  digits, the four operators, the space and the two parentheses.
\<close>

definition digit :: "char \<Rightarrow> bool" where
  "digit c \<longleftrightarrow> c \<in> set ''0123456789''"

definition numeric_literal :: "string \<Rightarrow> bool" where
  "numeric_literal s \<longleftrightarrow> s \<noteq> [] \<and> list_all digit s"

definition parenthesis :: "string \<Rightarrow> bool" where
  "parenthesis s \<longleftrightarrow> s = ''('' \<or> s = '')''"

definition expression_char :: "char \<Rightarrow> bool" where
  "expression_char c \<longleftrightarrow>
     digit c \<or> [c] \<in> set OPERATORS \<or> c = CHR '' '' \<or> c = CHR ''('' \<or> c = CHR '')''"

text \<open>
  The nodes reachable from a node. A leaf has no children and an operand as data; an
  internal node has both children and one of the four operators as data.
\<close>

fun nodes_of :: "node \<Rightarrow> node list" where
  "nodes_of (Node d l r) =
     Node d l r # (case l of None \<Rightarrow> [] | Some n \<Rightarrow> nodes_of n)
                @ (case r of None \<Rightarrow> [] | Some n \<Rightarrow> nodes_of n)"

definition childless :: "node \<Rightarrow> bool" where
  "childless n \<longleftrightarrow> left n = None \<and> right n = None"

definition is_leaf :: "node \<Rightarrow> bool" where
  "is_leaf n \<longleftrightarrow> left n = None \<and> right n = None \<and> numeric_literal (data n)"

definition is_internal :: "node \<Rightarrow> bool" where
  "is_internal n \<longleftrightarrow> left n \<noteq> None \<and> right n \<noteq> None \<and> data n \<in> set OPERATORS"

definition has_one_child :: "node \<Rightarrow> bool" where
  "has_one_child n \<longleftrightarrow> (left n = None) \<noteq> (right n = None)"

subsection \<open>Valid infix expressions\<close>

text \<open>
  The infix expressions over decimal numbers, the four operators, spaces and balanced
  parentheses: a number, an expression in parentheses, two expressions around an
  operator, and an expression with a space before or after it.
\<close>

inductive valid_infix :: "string \<Rightarrow> bool" where
  number: "ds \<noteq> [] \<Longrightarrow> list_all digit ds \<Longrightarrow> valid_infix ds"
| parens: "valid_infix e \<Longrightarrow> valid_infix (''('' @ e @ '')'')"
| binary: "valid_infix a \<Longrightarrow> s \<in> set OPERATORS \<Longrightarrow> valid_infix b \<Longrightarrow> valid_infix (a @ s @ b)"
| space_before: "valid_infix e \<Longrightarrow> valid_infix ('' '' @ e)"
| space_after: "valid_infix e \<Longrightarrow> valid_infix (e @ '' '')"

subsection \<open>Auxiliary predicates of the proofs\<close>

text \<open>
  The state of the scan before any operator is found.
\<close>

definition fresh :: "scan_state \<Rightarrow> bool" where
  "fresh st \<longleftrightarrow> lowest_operator st = -1 \<and> lowest_operator_index st = None
                 \<and> lowest_operator_brackets_level st = -1"

text \<open>
  Once an index is recorded, it is the index of an operator symbol of the symbols \<open>S\<close>
  scanned so far, and \<^verbatim>\<open>lowest_operator\<close> is the position of that operator in the list.
\<close>

definition found_operator :: "scan_state \<Rightarrow> (string \<times> nat) set \<Rightarrow> bool" where
  "found_operator st S \<longleftrightarrow>
     (\<forall>i. lowest_operator_index st = Some i \<longrightarrow>
        (\<exists>s. (s, i) \<in> S \<and> s \<in> set OPERATORS \<and> lowest_operator st = operators_index s))"

text \<open>
  The text around a rendered subtree in the recursive calls of \<^verbatim>\<open>from_infix\<close>: opening
  parentheses and spaces before it, closing parentheses and spaces after it.
\<close>

definition open_pad :: "string \<Rightarrow> bool" where
  "open_pad xs \<longleftrightarrow> list_all (\<lambda>c. c = CHR ''('' \<or> c = CHR '' '') xs"

definition close_pad :: "string \<Rightarrow> bool" where
  "close_pad xs \<longleftrightarrow> list_all (\<lambda>c. c = CHR '')'' \<or> c = CHR '' '') xs"

text \<open>
  \<open>operands_between seen xs\<close>: every stretch of \<open>xs\<close> between two operator characters
  (and before the first, with \<open>seen\<close> telling whether it already has one, and after the
  last) has a character that is no space and no parenthesis.
\<close>

definition blank :: "char \<Rightarrow> bool" where
  "blank c \<longleftrightarrow> c = CHR '' '' \<or> c = CHR ''('' \<or> c = CHR '')''"

fun operands_between :: "bool \<Rightarrow> string \<Rightarrow> bool" where
  "operands_between seen [] = seen"
| "operands_between seen (c # cs) =
     (if [c] \<in> set OPERATORS then seen \<and> operands_between False cs
      else operands_between (seen \<or> \<not> blank c) cs)"

section \<open>The examples of the specification\<close>

text \<open>
  C9. In indexed mode the tokenizer yields, for the text "12 + 345", exactly the symbols
  "12", "+" and "345", in this order, with the offsets 0, 3 and 5 of their first
  characters.
\<close>

theorem get_symbols_indices_example:
  "get_symbols_indices ''12 + 345'' = [(''12'', 0), (''+'', 3), (''345'', 5)]"
  by code_simp

text \<open>
  C1, as the specification states it, fails: for "8 - 3 - 2" the infix rendering of the
  tree that \<^verbatim>\<open>from_infix\<close> builds is not "(8 - (3 - 2))".
\<close>

theorem from_infix_subtraction_chain_counterexample:
  "from_infix ''8 - 3 - 2'' =
     Inr (BinaryExpressionTree
            (Node ''-''
               (Some (Node ''-'' (Some (Node ''8'' None None)) (Some (Node ''3'' None None))))
               (Some (Node ''2'' None None))))
   \<and> get_infix
        (BinaryExpressionTree
           (Node ''-''
              (Some (Node ''-'' (Some (Node ''8'' None None)) (Some (Node ''3'' None None))))
              (Some (Node ''2'' None None)))) None
      \<noteq> ''(8 - (3 - 2))''"
  by code_simp

text \<open>
  C1, amended. For "8 - 3 - 2" the scan of \<^verbatim>\<open>from_infix\<close> ends on the rightmost
  \<^verbatim>\<open>-\<close>, at offset 6 (entry 3 of the operator list), the text is split there into
  "8 - 3 " and " 2", and the infix rendering of the resulting tree is "((8 - 3) - 2)".
\<close>

theorem from_infix_subtraction_chain:
  "lowest_operator_index (scan ''8 - 3 - 2'') = Some 6
   \<and> operators_at (lowest_operator (scan ''8 - 3 - 2'')) = Inr ''-''
   \<and> take 6 ''8 - 3 - 2'' = ''8 - 3 ''
   \<and> drop (6 + 1) ''8 - 3 - 2'' = '' 2''
   \<and> from_infix ''8 - 3 - 2'' =
       Inr (BinaryExpressionTree
              (Node ''-''
                 (Some (Node ''-'' (Some (Node ''8'' None None)) (Some (Node ''3'' None None))))
                 (Some (Node ''2'' None None))))
   \<and> get_infix
        (BinaryExpressionTree
           (Node ''-''
              (Some (Node ''-'' (Some (Node ''8'' None None)) (Some (Node ''3'' None None))))
              (Some (Node ''2'' None None)))) None
      = ''((8 - 3) - 2)''"
  by code_simp

text \<open>
  C4. For "2 + 3 * 4" the scan of \<^verbatim>\<open>from_infix\<close> ends on the \<^verbatim>\<open>+\<close> at offset 2, so
  the text is split there and not on the \<^verbatim>\<open>*\<close>, and the postfix rendering of the
  resulting tree is "2 3 4 * +".
\<close>

theorem from_infix_precedence:
  "lowest_operator_index (scan ''2 + 3 * 4'') = Some 2
   \<and> operators_at (lowest_operator (scan ''2 + 3 * 4'')) = Inr ''+''
   \<and> from_infix ''2 + 3 * 4'' =
       Inr (BinaryExpressionTree
              (Node ''+''
                 (Some (Node ''2'' None None))
                 (Some (Node ''*'' (Some (Node ''3'' None None)) (Some (Node ''4'' None None))))))
   \<and> get_postfix
        (BinaryExpressionTree
           (Node ''+''
              (Some (Node ''2'' None None))
              (Some (Node ''*'' (Some (Node ''3'' None None)) (Some (Node ''4'' None None))))))
        None
      = ''2 3 4 * +''"
  by code_simp

text \<open>
  C5. For "(2 + 3) * 4" the scan of \<^verbatim>\<open>from_infix\<close> ends on the \<^verbatim>\<open>*\<close> at offset 8,
  found at bracket level 0, while the \<^verbatim>\<open>+\<close> was found at bracket level 1 (the state of
  the scan after "(2 + 3"); the postfix rendering of the resulting tree is "2 3 + 4 *".
\<close>

theorem from_infix_parentheses:
  "lowest_operator_index (scan ''(2 + 3) * 4'') = Some 8
   \<and> operators_at (lowest_operator (scan ''(2 + 3) * 4'')) = Inr ''*''
   \<and> lowest_operator_brackets_level (scan ''(2 + 3) * 4'') = 0
   \<and> lowest_operator_index (scan ''(2 + 3'') = Some 3
   \<and> lowest_operator_brackets_level (scan ''(2 + 3'') = 1
   \<and> from_infix ''(2 + 3) * 4'' =
       Inr (BinaryExpressionTree
              (Node ''*''
                 (Some (Node ''+'' (Some (Node ''2'' None None)) (Some (Node ''3'' None None))))
                 (Some (Node ''4'' None None))))
   \<and> get_postfix
        (BinaryExpressionTree
           (Node ''*''
              (Some (Node ''+'' (Some (Node ''2'' None None)) (Some (Node ''3'' None None))))
              (Some (Node ''4'' None None))))
        None
      = ''2 3 + 4 *''"
  by code_simp

text \<open>
  C10. \<^verbatim>\<open>from_infix\<close> returns a tree for the unbalanced text "(2 + 3", and it is the
  tree it returns for "(2 + 3)": the fallback for a text without operators takes the
  first symbol that is not a parenthesis, as for "(2 " and " 3)", whatever the
  parentheses around it.
\<close>

theorem from_infix_unbalanced:
  "from_infix ''(2 + 3'' =
     Inr (BinaryExpressionTree
            (Node ''+'' (Some (Node ''2'' None None)) (Some (Node ''3'' None None))))
   \<and> from_infix ''(2 + 3)'' =
     Inr (BinaryExpressionTree
            (Node ''+'' (Some (Node ''2'' None None)) (Some (Node ''3'' None None))))
   \<and> first_operand (get_symbols ''(2 '') = Some ''2''
   \<and> first_operand (get_symbols '' 3)'') = Some ''3''"
  by code_simp

text \<open>
  C7 fails on the code: the tokenizer skips the space character only. A tab (code point
  9) is yielded as a symbol of its own, alone and between two numbers.
\<close>

theorem get_symbols_tab:
  "get_symbols [CHR 0x09] = [[CHR 0x09]]
   \<and> get_symbols [CHR ''1'', CHR 0x09, CHR ''2''] = [''1'', [CHR 0x09], ''2'']"
  by code_simp

section \<open>The postfix builder\<close>

lemma postfix_step_underflow:
  assumes "symbol \<in> set OPERATORS" "length stack < 2"
  shows "postfix_step stack symbol = Inl IndexError"
proof (cases stack)
  case Nil
  with assms show ?thesis by (simp add: postfix_step_def pop_def)
next
  case (Cons n ns)
  with assms have "ns = []" by simp
  with Cons assms show ?thesis by (simp add: postfix_step_def pop_def)
qed

lemma postfix_loop_append:
  "postfix_loop (xs @ ys) stack =
     (case postfix_loop xs stack of Inl e \<Rightarrow> Inl e | Inr stack' \<Rightarrow> postfix_loop ys stack')"
  by (induction xs arbitrary: stack) (auto split: sum.splits)

text \<open>
  C3. When the symbols of the text are \<open>pre\<close>, then an operator, then \<open>rest\<close>, and the
  loop of \<^verbatim>\<open>from_postfix\<close> reaches the operator with fewer than two nodes on its stack,
  \<^verbatim>\<open>from_postfix\<close> raises the \<^verbatim>\<open>IndexError\<close> of \<^verbatim>\<open>pop\<close> on an empty list, which is the
  stack underflow of the specification; nothing catches it. The texts "+" (an empty
  stack) and "3 +" (one node on the stack) are instances.
\<close>

theorem from_postfix_underflow:
  assumes "get_symbols xs = pre @ symbol # rest"
    and "symbol \<in> set OPERATORS"
    and "postfix_loop pre [] = Inr stack"
    and "length stack < 2"
  shows "from_postfix xs = Inl IndexError"
  using assms
  by (simp add: from_postfix_def postfix_loop_append postfix_step_underflow)

theorem from_postfix_underflow_witness:
  "get_symbols ''+'' = [] @ ''+'' # []
   \<and> ''+'' \<in> set OPERATORS
   \<and> postfix_loop [] [] = Inr []
   \<and> length ([] :: node list) < 2
   \<and> from_postfix ''+'' = Inl IndexError
   \<and> get_symbols ''3 +'' = [''3''] @ ''+'' # []
   \<and> postfix_loop [''3''] [] = Inr [Node ''3'' None None]
   \<and> length [Node ''3'' None None] < 2
   \<and> from_postfix ''3 +'' = Inl IndexError"
proof -
  have h1: "get_symbols ''+'' = [] @ ''+'' # []" by code_simp
  have h2: "''+'' \<in> set OPERATORS" by code_simp
  have h3: "postfix_loop [] [] = Inr []" by simp
  have h4: "length ([] :: node list) < 2" by simp
  have k1: "get_symbols ''3 +'' = [''3''] @ ''+'' # []" by code_simp
  have k3: "postfix_loop [''3''] [] = Inr [Node ''3'' None None]" by code_simp
  have k4: "length [Node ''3'' None None] < 2" by simp
  from from_postfix_underflow[OF h1 h2 h3 h4] from_postfix_underflow[OF k1 h2 k3 k4]
    h1 h2 h3 h4 k1 k3 k4
  show ?thesis by blast
qed

text \<open>
  C2, as the specification states it, fails: for "3 4" the loop ends with two nodes on
  the stack, and \<^verbatim>\<open>from_postfix\<close> returns a tree.
\<close>

theorem from_postfix_two_roots_counterexample:
  "postfix_loop (get_symbols ''3 4'') [] = Inr [Node ''3'' None None, Node ''4'' None None]
   \<and> from_postfix ''3 4'' = Inr (BinaryExpressionTree (Node ''4'' None None))"
  by code_simp

text \<open>
  C2, amended. When the loop of \<^verbatim>\<open>from_postfix\<close> ends with more than one node on the
  stack, \<^verbatim>\<open>from_postfix\<close> returns the tree whose root is the node on top of the stack,
  the last one pushed; the nodes below it are dropped and no error is raised.
\<close>

theorem from_postfix_returns_top:
  assumes "postfix_loop (get_symbols xs) [] = Inr stack"
    and "1 < length stack"
  shows "from_postfix xs = Inr (BinaryExpressionTree (last stack))"
  using assms by (auto simp: from_postfix_def pop_def)

theorem from_postfix_returns_top_witness:
  "postfix_loop (get_symbols ''3 4'') [] = Inr [Node ''3'' None None, Node ''4'' None None]
   \<and> 1 < length [Node ''3'' None None, Node ''4'' None None]
   \<and> from_postfix ''3 4'' =
       Inr (BinaryExpressionTree (last [Node ''3'' None None, Node ''4'' None None]))"
proof -
  have h1: "postfix_loop (get_symbols ''3 4'') [] =
      Inr [Node ''3'' None None, Node ''4'' None None]"
    by code_simp
  have h2: "1 < length [Node ''3'' None None, Node ''4'' None None]" by simp
  from from_postfix_returns_top[OF h1 h2] h1 h2 show ?thesis by blast
qed

section \<open>The shape of the trees built\<close>

lemma tree_inv_nodes_of:
  "tree_inv P n \<Longrightarrow> m \<in> set (nodes_of n) \<Longrightarrow>
   ((childless m \<and> P (data m)) \<or> is_internal m) \<and> \<not> has_one_child m"
  by (induction P n rule: tree_inv.induct)
     (auto simp: childless_def is_internal_def has_one_child_def)

lemma get_symbols_loop_is_symbol:
  "list_all isnumeric symbol \<Longrightarrow> (s, j) \<in> set (get_symbols_loop xs i symbol symbol_index) \<Longrightarrow>
   is_symbol s"
proof (induction xs arbitrary: i symbol symbol_index)
  case Nil
  then show ?case by (auto simp: is_symbol_def split: if_splits)
next
  case (Cons c cs)
  show ?case
  proof (cases "isnumeric c")
    case True
    with Cons.prems have "(s, j) \<in> set (get_symbols_loop cs (i + 1) (symbol @ [c]) symbol_index)"
      by simp
    moreover have "list_all isnumeric (symbol @ [c])" using True Cons.prems by simp
    ultimately show ?thesis using Cons.IH by blast
  next
    case False
    with Cons.prems have "(s = symbol \<and> symbol \<noteq> []) \<or> (s = [c] \<and> c \<noteq> CHR '' '')
        \<or> (s, j) \<in> set (get_symbols_loop cs (i + 1) [] (i + 1))"
      by (auto split: if_splits)
    then show ?thesis
    proof (elim disjE)
      assume "(s, j) \<in> set (get_symbols_loop cs (i + 1) [] (i + 1))"
      then show ?thesis by (rule Cons.IH[rotated]) simp
    qed (use Cons.prems(1) False in \<open>auto simp: is_symbol_def\<close>)
  qed
qed

lemma get_symbols_is_symbol: "s \<in> set (get_symbols xs) \<Longrightarrow> is_symbol s"
  using get_symbols_loop_is_symbol[of "[]" s _ xs 0 0] by (auto simp: get_symbols_def)


text \<open>The space character is never a symbol.\<close>

lemma get_symbols_no_space: "'' '' \<notin> set (get_symbols xs)"
proof
  assume "'' '' \<in> set (get_symbols xs)"
  then have "is_symbol '' ''" by (rule get_symbols_is_symbol)
  then show False by (simp add: is_symbol_def isnumeric_def)
qed

lemma postfix_step_inv:
  assumes "postfix_step stack symbol = Inr stack'" "list_all (tree_inv P) stack"
    "symbol \<notin> set OPERATORS \<Longrightarrow> P symbol"
  shows "list_all (tree_inv P) stack'"
proof (cases "symbol \<in> set OPERATORS")
  case False
  with assms show ?thesis by (auto simp: postfix_step_def)
next
  case True
  with assms(1) obtain r l where st: "stack \<noteq> []" "butlast stack \<noteq> []"
      "r = last stack" "l = last (butlast stack)"
      "stack' = butlast (butlast stack) @ [Node symbol (Some l) (Some r)]"
    by (auto simp: postfix_step_def pop_def split: if_splits)
  from st(1,2) assms(2) have "tree_inv P (last stack)"
      "list_all (tree_inv P) (butlast stack)"
    by (auto simp: list_all_iff dest: in_set_butlastD)
  moreover from this st(2) have "tree_inv P (last (butlast stack))"
      "list_all (tree_inv P) (butlast (butlast stack))"
    by (auto simp: list_all_iff dest: in_set_butlastD)
  ultimately show ?thesis using st True by simp
qed

lemma postfix_loop_inv:
  "postfix_loop symbols stack = Inr stack' \<Longrightarrow> list_all (tree_inv P) stack \<Longrightarrow>
   (\<And>s. s \<in> set symbols \<Longrightarrow> s \<notin> set OPERATORS \<Longrightarrow> P s) \<Longrightarrow>
   list_all (tree_inv P) stack'"
proof (induction symbols arbitrary: stack)
  case Nil
  then show ?case by simp
next
  case (Cons s ss)
  from Cons.prems(1) obtain st1 where st1: "postfix_step stack s = Inr st1"
      "postfix_loop ss st1 = Inr stack'"
    by (auto split: sum.splits)
  from postfix_step_inv[OF st1(1) Cons.prems(2)] Cons.prems(3)[of s]
  have "list_all (tree_inv P) st1" by simp
  from Cons.IH[OF st1(2) this] Cons.prems(3) show ?case by simp
qed

lemma from_postfix_tree_inv:
  assumes "from_postfix xs = Inr t"
    and "\<And>s. s \<in> set (get_symbols xs) \<Longrightarrow> s \<notin> set OPERATORS \<Longrightarrow> P s"
  shows "tree_inv P (root t)"
proof -
  from assms(1) obtain stack where st: "postfix_loop (get_symbols xs) [] = Inr stack"
      "stack \<noteq> []" "t = BinaryExpressionTree (last stack)"
    by (auto simp: from_postfix_def pop_def split: sum.splits if_splits)
  from postfix_loop_inv[OF st(1), of P] assms(2) have "list_all (tree_inv P) stack" by simp
  with st(2,3) show ?thesis by (simp add: list_all_iff)
qed

lemma from_postfix_inv:
  assumes "from_postfix xs = Inr t"
  shows "tree_inv leaf_symbol (root t)"
  using assms
  by (rule from_postfix_tree_inv) (simp add: leaf_symbol_def get_symbols_is_symbol)

lemma operators_index_nonneg: "0 \<le> operators_index s"
  by (simp add: operators_index_def)

lemma scan_step_fresh:
  assumes "fresh st"
  shows "if s \<in> set OPERATORS then lowest_operator_index (scan_step st (s, i)) = Some i
         else fresh (scan_step st (s, i))"
  using assms operators_index_nonneg[of s]
  by (auto simp: fresh_def scan_step_def OPERATORS_def)

lemma scan_step_found:
  "lowest_operator_index st = Some k \<Longrightarrow> \<exists>k'. lowest_operator_index (scan_step st p) = Some k'"
  by (cases p) (auto simp: scan_step_def)

lemma foldl_scan_step_found:
  "lowest_operator_index st = Some k \<Longrightarrow>
   \<exists>k'. lowest_operator_index (foldl scan_step st syms) = Some k'"
proof (induction syms arbitrary: st k)
  case Nil
  then show ?case by simp
next
  case (Cons p ps)
  from scan_step_found[OF Cons.prems] obtain k' where
    "lowest_operator_index (scan_step st p) = Some k'" by blast
  from Cons.IH[OF this] show ?case by simp
qed

lemma foldl_scan_step_none:
  "fresh st \<Longrightarrow> lowest_operator_index (foldl scan_step st syms) = None \<Longrightarrow>
   (s, i) \<in> set syms \<Longrightarrow> s \<notin> set OPERATORS"
proof (induction syms arbitrary: st)
  case Nil
  then show ?case by simp
next
  case (Cons p ps)
  obtain s' i' where p: "p = (s', i')" by (cases p)
  have notop: "s' \<notin> set OPERATORS"
  proof
    assume "s' \<in> set OPERATORS"
    with scan_step_fresh[OF Cons.prems(1), of s' i']
    have "lowest_operator_index (scan_step st p) = Some i'" by (simp add: p)
    from foldl_scan_step_found[OF this, of ps] Cons.prems(2) show False by simp
  qed
  with scan_step_fresh[OF Cons.prems(1), of s' i'] have "fresh (scan_step st p)"
    by (simp add: p)
  from Cons.IH[OF this] Cons.prems(2,3) notop p show ?case by auto
qed

lemma scan_none_no_operator:
  assumes "lowest_operator_index (scan xs) = None" "s \<in> set (get_symbols xs)"
  shows "s \<notin> set OPERATORS"
proof -
  from assms(2) obtain i where "(s, i) \<in> set (get_symbols_indices xs)"
    by (auto simp: get_symbols_def get_symbols_indices_def)
  moreover have "fresh scan_init" by (simp add: fresh_def scan_init_def)
  ultimately show ?thesis
    using assms(1) foldl_scan_step_none unfolding scan_def by blast
qed

lemma operators_at_Inr: "operators_at k = Inr s \<Longrightarrow> s \<in> set OPERATORS"
  by (auto simp: operators_at_def Let_def split: if_splits)

lemma first_operand_Some:
  "first_operand symbols = Some s \<Longrightarrow> s \<in> set symbols \<and> \<not> in_parens s"
  unfolding first_operand_def
  by (induction symbols) (auto split: if_splits)

lemma from_infix_inv:
  "from_infix xs = Inr t \<Longrightarrow> tree_inv infix_leaf_symbol (root t)"
proof (induction xs arbitrary: t rule: from_infix.induct)
  case (1 xs)
  show ?case
  proof (cases "lowest_operator_index (scan xs)")
    case None
    with "1.prems" obtain s where s: "first_operand (get_symbols xs) = Some s"
        "t = BinaryExpressionTree (Node s None None)"
      by (auto simp: from_infix.simps[of xs] split: option.splits)
    from first_operand_Some[OF s(1)] have "s \<in> set (get_symbols xs)" "\<not> in_parens s"
      by simp_all
    with scan_none_no_operator[OF None] get_symbols_is_symbol
    have "infix_leaf_symbol s" by (simp add: infix_leaf_symbol_def leaf_symbol_def)
    with s(2) show ?thesis by simp
  next
    case (Some i)
    with "1.prems" obtain l r d where parts: "from_infix (take i xs) = Inr l"
        "from_infix (drop (i + 1) xs) = Inr r"
        "operators_at (lowest_operator (scan xs)) = Inr d"
        "t = BinaryExpressionTree (Node d (Some (root l)) (Some (root r)))"
      by (auto simp: from_infix.simps[of xs] split: sum.splits)
    from "1.IH"(1)[OF Some parts(1)] "1.IH"(2)[OF Some parts(1) parts(2)]
      operators_at_Inr[OF parts(3)] parts(4)
    show ?thesis by simp
  qed
qed

section \<open>Rendering and building again\<close>

subsection \<open>The tokenizer on concatenated texts\<close>

lemma get_symbols_loop_append:
  "\<not> isnumeric c \<Longrightarrow>
   get_symbols_loop (xs @ c # ys) i symbol symbol_index =
     get_symbols_loop xs i symbol symbol_index
     @ get_symbols_loop (c # ys) (i + length xs) [] (i + length xs)"
  by (induction xs arbitrary: i symbol symbol_index) simp_all

lemma get_symbols_loop_append_post:
  "ys = [] \<or> \<not> isnumeric (hd ys) \<Longrightarrow>
   get_symbols_loop (xs @ ys) i symbol symbol_index =
     get_symbols_loop xs i symbol symbol_index
     @ get_symbols_loop ys (i + length xs) [] (i + length xs)"
  using get_symbols_loop_append[of "hd ys" xs "tl ys" i symbol symbol_index]
  by (cases ys) auto

lemma get_symbols_loop_append_pre:
  "list_all (\<lambda>c. \<not> isnumeric c) xs \<Longrightarrow>
   get_symbols_loop (xs @ ys) i [] i =
     get_symbols_loop xs i [] i @ get_symbols_loop ys (i + length xs) [] (i + length xs)"
  by (induction xs arbitrary: i) simp_all

lemma get_symbols_loop_numeric:
  "list_all isnumeric d \<Longrightarrow>
   get_symbols_loop d i symbol symbol_index =
     (if symbol @ d \<noteq> [] then [(symbol @ d, symbol_index)] else [])"
  by (induction d arbitrary: i symbol) simp_all

lemma get_symbols_loop_symbol:
  assumes "is_symbol d"
  shows "get_symbols_loop d i [] i = [(d, i)]"
proof (cases "d \<noteq> [] \<and> list_all isnumeric d")
  case True
  then show ?thesis by (simp add: get_symbols_loop_numeric)
next
  case False
  with assms obtain c where "d = [c]" "\<not> isnumeric c" "c \<noteq> CHR '' ''"
    by (cases d) (auto simp: is_symbol_def)
  then show ?thesis by simp
qed

lemma operator_char:
  assumes "s \<in> set OPERATORS"
  obtains c where "s = [c]" "\<not> isnumeric c" "c \<noteq> CHR '' ''" "c \<noteq> CHR ''(''" "c \<noteq> CHR '')''"
  using assms by (auto simp: OPERATORS_def isnumeric_def)

lemma get_symbols_loop_internal:
  assumes "s \<in> set OPERATORS"
  shows "get_symbols_loop (''('' @ L @ '' '' @ s @ '' '' @ R @ '')'') i [] i =
     [(''('', i)] @ get_symbols_loop L (i + 1) [] (i + 1)
     @ [(s, i + length L + 2)]
     @ get_symbols_loop R (i + length L + 4) [] (i + length L + 4)
     @ [('')'', i + length L + length R + 4)]"
proof -
  from assms obtain c where c: "s = [c]" "\<not> isnumeric c" "c \<noteq> CHR '' ''"
    by (rule operator_char)
  have sp: "\<not> isnumeric CHR '' ''" "\<not> isnumeric CHR ''(''" "\<not> isnumeric CHR '')''"
    by (simp_all add: isnumeric_def)
  have 1: "get_symbols_loop (L @ CHR '' '' # c # CHR '' '' # R @ '')'') (Suc i) [] (Suc i) =
      get_symbols_loop L (Suc i) [] (Suc i)
      @ get_symbols_loop (CHR '' '' # c # CHR '' '' # R @ '')'') (Suc i + length L) []
          (Suc i + length L)"
    using sp(1) by (rule get_symbols_loop_append)
  have 2: "get_symbols_loop (R @ '')'') k [] k =
      get_symbols_loop R k [] k @ [('')'', k + length R)]" for k
    using get_symbols_loop_append[OF sp(3), of R "[]" k "[]" k] sp(3) by simp
  show ?thesis
    using c sp by (simp add: 1 2 eval_nat_numeral)
qed

lemma not_numeric_pad [simp]:
  "\<not> isnumeric CHR '' ''" "\<not> isnumeric CHR ''(''" "\<not> isnumeric CHR '')''"
  by (simp_all add: isnumeric_def)

lemma open_pad_symbols:
  "open_pad xs \<Longrightarrow> p \<in> set (get_symbols_loop xs i [] j) \<Longrightarrow> fst p = ''(''"
proof (induction xs arbitrary: i j)
  case Nil
  then show ?case by simp
next
  case (Cons c cs)
  from Cons.prems(1) have c: "c = CHR ''('' \<or> c = CHR '' ''" and cs: "open_pad cs"
    by (simp_all add: open_pad_def)
  from c Cons.prems(2)
  have "p = (''('', i) \<or> p \<in> set (get_symbols_loop cs (i + 1) [] (i + 1))"
    by (auto split: if_splits)
  then show ?case using Cons.IH[OF cs] by auto
qed

lemma close_pad_symbols:
  "close_pad xs \<Longrightarrow> p \<in> set (get_symbols_loop xs i [] j) \<Longrightarrow> fst p = '')''"
proof (induction xs arbitrary: i j)
  case Nil
  then show ?case by simp
next
  case (Cons c cs)
  from Cons.prems(1) have c: "c = CHR '')'' \<or> c = CHR '' ''" and cs: "close_pad cs"
    by (simp_all add: close_pad_def)
  from c Cons.prems(2)
  have "p = ('')'', i) \<or> p \<in> set (get_symbols_loop cs (i + 1) [] (i + 1))"
    by (auto split: if_splits)
  then show ?case using Cons.IH[OF cs] by auto
qed

lemma open_pad_char: "c = CHR ''('' \<or> c = CHR '' '' \<Longrightarrow> \<not> isnumeric c"
  by (erule disjE) simp_all

lemma close_pad_char: "c = CHR '')'' \<or> c = CHR '' '' \<Longrightarrow> \<not> isnumeric c"
  by (erule disjE) simp_all

lemma open_pad_not_numeric: "open_pad xs \<Longrightarrow> list_all (\<lambda>c. \<not> isnumeric c) xs"
  unfolding open_pad_def by (erule list.pred_mono_strong) (rule open_pad_char)

lemma close_pad_not_numeric: "close_pad xs \<Longrightarrow> xs = [] \<or> \<not> isnumeric (hd xs)"
proof (cases xs)
  case Nil
  then show ?thesis by simp
next
  case (Cons c cs)
  assume "close_pad xs"
  with Cons have "c = CHR '')'' \<or> c = CHR '' ''" by (simp add: close_pad_def)
  then have "\<not> isnumeric c" by (rule close_pad_char)
  with Cons show ?thesis by simp
qed

lemma get_symbols_loop_padded:
  assumes "open_pad pre" "close_pad post"
  shows "get_symbols_loop (pre @ G @ post) 0 [] 0 =
     get_symbols_loop pre 0 [] 0 @ get_symbols_loop G (length pre) [] (length pre)
     @ get_symbols_loop post (length pre + length G) [] (length pre + length G)"
  using get_symbols_loop_append_pre[OF open_pad_not_numeric[OF assms(1)], of "G @ post" 0]
    get_symbols_loop_append_post[OF close_pad_not_numeric[OF assms(2)], of G "length pre" "[]"
      "length pre"]
  by simp

subsection \<open>The scan on a rendered tree\<close>

lemma scan_step_open: "scan_step st (''('', j) = st\<lparr>brackets_level := brackets_level st + 1\<rparr>"
  by (simp add: scan_step_def)

lemma scan_step_close: "scan_step st ('')'', j) = st\<lparr>brackets_level := brackets_level st - 1\<rparr>"
  by (simp add: scan_step_def)

lemma foldl_scan_step_open:
  "\<forall>p\<in>set syms. fst p = ''('' \<Longrightarrow>
   foldl scan_step st syms = st\<lparr>brackets_level := brackets_level st + int (length syms)\<rparr>"
proof (induction syms arbitrary: st)
  case Nil
  then show ?case by simp
next
  case (Cons p ps)
  then obtain j where p: "p = (''('', j)" by (cases p) auto
  from Cons.prems have "\<forall>p\<in>set ps. fst p = ''(''" by simp
  from Cons.IH[OF this] show ?case by (simp add: p scan_step_open)
qed

lemma foldl_scan_step_close:
  "\<forall>p\<in>set syms. fst p = '')'' \<Longrightarrow>
   foldl scan_step st syms = st\<lparr>brackets_level := brackets_level st - int (length syms)\<rparr>"
proof (induction syms arbitrary: st)
  case Nil
  then show ?case by simp
next
  case (Cons p ps)
  then obtain j where p: "p = ('')'', j)" by (cases p) auto
  from Cons.prems have "\<forall>p\<in>set ps. fst p = '')''" by simp
  from Cons.IH[OF this] show ?case by (simp add: p scan_step_close)
qed

lemma infix_leaf_symbol_simps:
  assumes "infix_leaf_symbol d"
  shows "d \<noteq> ''(''" "d \<noteq> '')''" "d \<notin> set OPERATORS" "is_symbol d" "\<not> in_parens d"
  using assms by (simp_all add: infix_leaf_symbol_def leaf_symbol_def in_parens_def)

lemma scan_step_operand: "infix_leaf_symbol d \<Longrightarrow> scan_step st (d, i) = st"
  by (simp add: scan_step_def infix_leaf_symbol_simps)

lemma operator_not_paren:
  assumes "s \<in> set OPERATORS"
  shows "s \<noteq> ''(''" "s \<noteq> '')''"
  using assms by (simp_all add: OPERATORS_def) blast+

lemma scan_step_accept:
  assumes "s \<in> set OPERATORS"
    and "fresh st \<or> brackets_level st < lowest_operator_brackets_level st"
  shows "scan_step st (s, p) =
     st\<lparr>lowest_operator := operators_index s, lowest_operator_index := Some p,
        lowest_operator_brackets_level := brackets_level st\<rparr>"
proof -
  note np = operator_not_paren[OF assms(1)]
  from assms(2) show ?thesis
  proof
    assume "fresh st"
    then show ?thesis
      using operators_index_nonneg[of s] assms(1) np by (simp add: scan_step_def fresh_def)
  next
    assume "brackets_level st < lowest_operator_brackets_level st"
    then show ?thesis
      using assms(1) np by (simp add: scan_step_def)
  qed
qed

lemma scan_step_reject:
  assumes "lowest_operator_brackets_level st \<noteq> -1"
    and "lowest_operator_brackets_level st < brackets_level st"
    and "s \<noteq> ''(''" "s \<noteq> '')''"
  shows "scan_step st (s, p) = st"
  using assms by (simp add: scan_step_def)

lemma get_infix_node_leaf: "get_infix_node (Node d None None) = d"
  by simp

lemma get_infix_node_internal:
  "get_infix_node (Node d (Some l) (Some r)) =
     ''('' @ get_infix_node l @ '' '' @ d @ '' '' @ get_infix_node r @ '')''"
  by simp

lemma tree_inv_cases:
  assumes "tree_inv P t"
  obtains (leaf) d where "t = Node d None None" "P d"
  | (internal) d l r where "t = Node d (Some l) (Some r)" "d \<in> set OPERATORS"
      "tree_inv P l" "tree_inv P r"
proof (cases t)
  case (Node d lo ro)
  show ?thesis
  proof (cases lo)
    case None
    with Node assms have "ro = None" by (cases ro) simp_all
    with None Node assms show ?thesis by (intro leaf[of d]) simp_all
  next
    case (Some l)
    with Node assms obtain r where "ro = Some r" by (cases ro) simp_all
    with Some Node assms show ?thesis by (intro internal[of d l r]) simp_all
  qed
qed

lemma scan_get_infix_skip:
  "tree_inv infix_leaf_symbol t \<Longrightarrow> lowest_operator_brackets_level st \<noteq> -1 \<Longrightarrow>
   lowest_operator_brackets_level st \<le> brackets_level st \<Longrightarrow>
   foldl scan_step st (get_symbols_loop (get_infix_node t) i [] i) = st"
proof (induction t arbitrary: st i)
  case (Node d0 lo ro)
  from Node.prems(1) show ?case
  proof (cases rule: tree_inv_cases)
    case (leaf d)
    show ?thesis
      unfolding leaf(1) get_infix_node_leaf
        get_symbols_loop_symbol[OF infix_leaf_symbol_simps(4)[OF leaf(2)]]
      by (simp add: scan_step_operand[OF leaf(2)])
  next
    case (internal d l r)
    then have lo: "lo = Some l" and ro: "ro = Some r" by simp_all
    note np = operator_not_paren[OF internal(2)]
    define st1 where "st1 = st\<lparr>brackets_level := brackets_level st + 1\<rparr>"
    have st1: "lowest_operator_brackets_level st1 \<noteq> -1"
      "lowest_operator_brackets_level st1 \<le> brackets_level st1"
      "lowest_operator_brackets_level st1 < brackets_level st1"
      using Node.prems(2,3) by (simp_all add: st1_def)
    have a: "scan_step st (''('', i) = st1" by (simp add: scan_step_open st1_def)
    have b: "foldl scan_step st1 (get_symbols_loop (get_infix_node l) j [] j) = st1" for j
      using Node.IH(1)[of l st1 j] internal(3) st1(1,2) lo by simp
    have e: "scan_step st1 (d, j) = st1" for j
      using st1(1,3) np by (rule scan_step_reject)
    have f: "foldl scan_step st1 (get_symbols_loop (get_infix_node r) j [] j) = st1" for j
      using Node.IH(2)[of r st1 j] internal(4) st1(1,2) ro by simp
    have g: "scan_step st1 ('')'', j) = st" for j
      by (simp add: scan_step_close st1_def)
    show ?thesis
      unfolding internal(1) get_infix_node_internal get_symbols_loop_internal[OF internal(2)]
      by (simp only: foldl_append foldl.simps a b e f g)
  qed
qed

lemma scan_get_infix_fresh:
  "tree_inv infix_leaf_symbol t \<Longrightarrow> fresh st \<Longrightarrow> 0 \<le> brackets_level st \<Longrightarrow>
   foldl scan_step st (get_symbols_loop (get_infix_node t) i [] i) =
     (case left t of
        None \<Rightarrow> st
      | Some l \<Rightarrow>
          st\<lparr>lowest_operator := operators_index (data t),
             lowest_operator_index := Some (i + length (get_infix_node l) + 2),
             lowest_operator_brackets_level := brackets_level st + 1\<rparr>)"
proof (induction t arbitrary: st i)
  case (Node d0 lo ro)
  from Node.prems(1) show ?case
  proof (cases rule: tree_inv_cases)
    case (leaf d)
    show ?thesis
      unfolding leaf(1) get_infix_node_leaf
        get_symbols_loop_symbol[OF infix_leaf_symbol_simps(4)[OF leaf(2)]]
      by (simp add: scan_step_operand[OF leaf(2)])
  next
    case (internal d l r)
    then have lo: "lo = Some l" and ro: "ro = Some r" by simp_all
    define st1 where "st1 = st\<lparr>brackets_level := brackets_level st + 1\<rparr>"
    have st1: "fresh st1" "0 \<le> brackets_level st1"
      using Node.prems(2,3) by (simp_all add: st1_def fresh_def)
    have a: "scan_step st (''('', i) = st1" by (simp add: scan_step_open st1_def)
    define st2 where
      "st2 = foldl scan_step st1 (get_symbols_loop (get_infix_node l) (i + 1) [] (i + 1))"
    have st2: "st2 = (case left l of None \<Rightarrow> st1 | Some l' \<Rightarrow>
          st1\<lparr>lowest_operator := operators_index (data l),
             lowest_operator_index := Some (i + 1 + length (get_infix_node l') + 2),
             lowest_operator_brackets_level := brackets_level st1 + 1\<rparr>)"
      unfolding st2_def using Node.IH(1)[of l st1 "i + 1"] internal(3) st1 lo by simp
    define st3 where
      "st3 = st1\<lparr>lowest_operator := operators_index d,
             lowest_operator_index := Some (i + length (get_infix_node l) + 2),
             lowest_operator_brackets_level := brackets_level st1\<rparr>"
    have "fresh st2 \<or> brackets_level st2 < lowest_operator_brackets_level st2"
      using st1 st2 by (cases "left l") simp_all
    from scan_step_accept[OF internal(2) this, of "i + length (get_infix_node l) + 2"]
    have e: "scan_step st2 (d, i + length (get_infix_node l) + 2) = st3"
      using st2 by (cases "left l") (simp_all add: st3_def)
    have st3: "lowest_operator_brackets_level st3 \<noteq> -1"
      "lowest_operator_brackets_level st3 \<le> brackets_level st3"
      using st1 by (simp_all add: st3_def)
    have f: "foldl scan_step st3 (get_symbols_loop (get_infix_node r) j [] j) = st3" for j
      using scan_get_infix_skip[OF internal(4) st3] .
    have g: "scan_step st3 ('')'', j) =
      st\<lparr>lowest_operator := operators_index d,
         lowest_operator_index := Some (i + length (get_infix_node l) + 2),
         lowest_operator_brackets_level := brackets_level st + 1\<rparr>" for j
      by (simp add: scan_step_close st3_def st1_def)
    have "foldl scan_step st
        (get_symbols_loop (get_infix_node (Node d (Some l) (Some r))) i [] i)
      = st\<lparr>lowest_operator := operators_index d,
         lowest_operator_index := Some (i + length (get_infix_node l) + 2),
         lowest_operator_brackets_level := brackets_level st + 1\<rparr>"
      unfolding get_infix_node_internal get_symbols_loop_internal[OF internal(2)]
      by (simp only: foldl_append foldl.simps a st2_def[symmetric] e f g)
    then show ?thesis by (simp add: internal(1))
  qed
qed

lemma scan_padded:
  assumes "tree_inv infix_leaf_symbol t" "open_pad pre" "close_pad post"
  shows "lowest_operator_index (scan (pre @ get_infix_node t @ post)) =
      (case left t of None \<Rightarrow> None
       | Some l \<Rightarrow> Some (length pre + length (get_infix_node l) + 2))"
    and "left t \<noteq> None \<Longrightarrow>
      lowest_operator (scan (pre @ get_infix_node t @ post)) = operators_index (data t)"
proof -
  define Spre where "Spre = get_symbols_loop pre 0 [] 0"
  define Spost where "Spost = get_symbols_loop post (length pre + length (get_infix_node t)) []
      (length pre + length (get_infix_node t))"
  define stp where "stp = foldl scan_step scan_init Spre"
  define stg where
    "stg = foldl scan_step stp (get_symbols_loop (get_infix_node t) (length pre) [] (length pre))"
  have "\<forall>p\<in>set Spre. fst p = ''(''"
    using open_pad_symbols[OF assms(2)] by (simp add: Spre_def)
  from foldl_scan_step_open[OF this]
  have stp: "stp = scan_init\<lparr>brackets_level := brackets_level scan_init + int (length Spre)\<rparr>"
    by (simp add: stp_def)
  then have "fresh stp" "0 \<le> brackets_level stp"
    by (simp_all add: fresh_def scan_init_def)
  from scan_get_infix_fresh[OF assms(1) this]
  have stg: "stg = (case left t of None \<Rightarrow> stp
       | Some l \<Rightarrow>
          stp\<lparr>lowest_operator := operators_index (data t),
             lowest_operator_index := Some (length pre + length (get_infix_node l) + 2),
             lowest_operator_brackets_level := brackets_level stp + 1\<rparr>)"
    by (simp add: stg_def)
  have "\<forall>p\<in>set Spost. fst p = '')''"
    using close_pad_symbols[OF assms(3)] by (simp add: Spost_def)
  from foldl_scan_step_close[OF this]
  have fin: "foldl scan_step stg Spost =
      stg\<lparr>brackets_level := brackets_level stg - int (length Spost)\<rparr>" .
  have sc: "scan (pre @ get_infix_node t @ post) = foldl scan_step stg Spost"
    unfolding scan_def get_symbols_indices_def get_symbols_loop_padded[OF assms(2,3)]
    by (simp add: stg_def stp_def Spre_def Spost_def)
  show "lowest_operator_index (scan (pre @ get_infix_node t @ post)) =
      (case left t of None \<Rightarrow> None
       | Some l \<Rightarrow> Some (length pre + length (get_infix_node l) + 2))"
    unfolding sc fin using stg stp by (cases "left t") (simp_all add: scan_init_def)
  show "lowest_operator (scan (pre @ get_infix_node t @ post)) = operators_index (data t)"
    if "left t \<noteq> None"
    unfolding sc fin using stg that by (cases "left t") simp_all
qed

subsection \<open>Building from a rendering gives the tree back\<close>

lemma find_skip:
  "\<forall>x\<in>set xs. \<not> P x \<Longrightarrow> P y \<Longrightarrow> find P (xs @ y # ys) = Some y"
  by (induction xs) simp_all

lemma first_operand_padded:
  assumes "infix_leaf_symbol d" "open_pad pre" "close_pad post"
  shows "first_operand (get_symbols (pre @ d @ post)) = Some d"
proof -
  have "\<forall>s\<in>set (map fst (get_symbols_loop pre 0 [] 0)). \<not> \<not> in_parens s"
    using open_pad_symbols[OF assms(2)] by (auto simp: in_parens_def)
  moreover have "\<not> in_parens d" using assms(1) by (rule infix_leaf_symbol_simps)
  ultimately show ?thesis
    unfolding first_operand_def get_symbols_def get_symbols_loop_padded[OF assms(2,3)]
      get_symbols_loop_symbol[OF infix_leaf_symbol_simps(4)[OF assms(1)]]
    by (simp add: find_skip)
qed

lemma operators_at_index:
  assumes "d \<in> set OPERATORS"
  shows "operators_at (operators_index d) = Inr d"
proof -
  from assms have "d = ''/'' \<or> d = ''*'' \<or> d = ''+'' \<or> d = ''-''"
    by (simp add: OPERATORS_def)
  then show ?thesis
    by (elim disjE) (simp_all add: operators_at_def operators_index_def OPERATORS_def)
qed

lemma take_drop_at:
  assumes "length A = k"
  shows "take k (A @ c # B) = A" and "drop (k + 1) (A @ c # B) = B"
  using assms by auto

lemma from_infix_get_infix_node:
  "tree_inv infix_leaf_symbol t \<Longrightarrow> open_pad pre \<Longrightarrow> close_pad post \<Longrightarrow>
   from_infix (pre @ get_infix_node t @ post) = Inr (BinaryExpressionTree t)"
proof (induction t arbitrary: pre post)
  case (Node d0 lo ro)
  note pads = Node.prems(2,3)
  from Node.prems(1) show ?case
  proof (cases rule: tree_inv_cases)
    case (leaf d)
    have t: "tree_inv infix_leaf_symbol (Node d None None)" using leaf(2) by simp
    have "lowest_operator_index (scan (pre @ d @ post)) = None"
      using scan_padded(1)[OF t pads] by simp
    moreover have "first_operand (get_symbols (pre @ d @ post)) = Some d"
      using leaf(2) pads by (rule first_operand_padded)
    ultimately show ?thesis
      unfolding leaf(1) get_infix_node_leaf
      by (simp add: from_infix.simps[of "pre @ d @ post"])
  next
    case (internal d l r)
    then have lo: "lo = Some l" and ro: "ro = Some r" by simp_all
    from internal(2) obtain c where c: "d = [c]" by (rule operator_char)
    define L where "L = get_infix_node l"
    define R where "R = get_infix_node r"
    define T where "T = pre @ get_infix_node (Node d (Some l) (Some r)) @ post"
    define k where "k = length pre + length L + 2"
    have t: "tree_inv infix_leaf_symbol (Node d (Some l) (Some r))"
      using internal(2-4) by simp
    have idx: "lowest_operator_index (scan T) = Some k"
      using scan_padded(1)[OF t pads] by (simp add: T_def k_def L_def)
    have lop: "lowest_operator (scan T) = operators_index d"
      using scan_padded(2)[OF t pads] by (simp add: T_def)
    have T: "T = ((pre @ ''('') @ L @ '' '') @ c # ('' '' @ R @ ('')'' @ post))"
      by (simp add: T_def L_def R_def c)
    have len: "length ((pre @ ''('') @ L @ '' '') = k" by (simp add: k_def)
    have tk: "take k T = (pre @ ''('') @ L @ '' ''"
      unfolding T using len by (rule take_drop_at)
    have dr: "drop (k + 1) T = '' '' @ R @ ('')'' @ post)"
      unfolding T using len by (rule take_drop_at)
    have "open_pad (pre @ ''('')" "close_pad '' ''" "open_pad '' ''" "close_pad ('')'' @ post)"
      using pads by (simp_all add: open_pad_def close_pad_def)
    then have il: "from_infix (take k T) = Inr (BinaryExpressionTree l)"
      and ir: "from_infix (drop (k + 1) T) = Inr (BinaryExpressionTree r)"
      unfolding tk dr L_def R_def
      using Node.IH(1)[of l "pre @ ''(''" "'' ''"] Node.IH(2)[of r "'' ''" "'')'' @ post"]
        internal(3,4) lo ro by simp_all
    have "from_infix T = Inr (BinaryExpressionTree (Node d (Some l) (Some r)))"
      using il ir
      by (simp add: from_infix.simps[of T] idx lop operators_at_index[OF internal(2)])
    then show ?thesis by (simp add: T_def internal(1))
  qed
qed

lemma from_infix_get_infix_fixed:
  assumes "from_infix E = Inr t"
  shows "from_infix (get_infix t None) = Inr t"
proof -
  from assms have "tree_inv infix_leaf_symbol (root t)" by (rule from_infix_inv)
  from from_infix_get_infix_node[OF this, of "[]" "[]"] show ?thesis
    by (simp add: get_infix_def open_pad_def close_pad_def)
qed

subsection \<open>\<^verbatim>\<open>from_infix\<close> returns on every valid expression\<close>

lemma numeric_not_in_parens:
  assumes "symbol \<noteq> []" "list_all isnumeric symbol"
  shows "\<not> in_parens symbol"
proof
  assume "in_parens symbol"
  with assms(1) have "symbol = ''('' \<or> symbol = '')'' \<or> symbol = ''()''"
    by (simp add: in_parens_def)
  then show False using assms(2) by (elim disjE) simp_all
qed

lemma single_not_in_parens: "\<not> blank c \<Longrightarrow> \<not> in_parens [c]"
  by (simp add: blank_def in_parens_def)

lemma operator_symbol_at:
  "list_all isnumeric symbol \<Longrightarrow> (s, j) \<in> set (get_symbols_loop xs i symbol symbol_index) \<Longrightarrow>
   s \<in> set OPERATORS \<Longrightarrow> i \<le> j \<and> j - i < length xs \<and> s = [xs ! (j - i)]"
proof (induction xs arbitrary: i symbol symbol_index)
  case Nil
  from Nil.prems(3) obtain c where c: "s = [c]" "\<not> isnumeric c" by (rule operator_char)
  from Nil.prems(2) have "s = symbol" by (simp split: if_splits)
  with Nil.prems(1) c show ?case by simp
next
  case (Cons x xs)
  from Cons.prems(3) obtain c where c: "s = [c]" "\<not> isnumeric c" by (rule operator_char)
  show ?case
  proof (cases "isnumeric x")
    case True
    with Cons.prems have "(s, j) \<in> set (get_symbols_loop xs (i + 1) (symbol @ [x]) symbol_index)"
      "list_all isnumeric (symbol @ [x])" by simp_all
    from Cons.IH[OF this(2,1) Cons.prems(3)]
    have "i + 1 \<le> j" "j - (i + 1) < length xs" "s = [xs ! (j - (i + 1))]" by simp_all
    moreover from this(1) have "(x # xs) ! (j - i) = xs ! (j - (i + 1))"
      by (simp add: nth_Cons')
    ultimately show ?thesis by simp
  next
    case False
    with Cons.prems(2) have "(s = symbol \<and> symbol \<noteq> []) \<or> (s, j) = ([x], i)
        \<or> (s, j) \<in> set (get_symbols_loop xs (i + 1) [] (i + 1))"
      by (simp split: if_splits) blast+
    then show ?thesis
    proof (elim disjE)
      assume "s = symbol \<and> symbol \<noteq> []"
      with Cons.prems(1) c show ?thesis by simp
    next
      assume "(s, j) = ([x], i)"
      then show ?thesis by simp
    next
      assume "(s, j) \<in> set (get_symbols_loop xs (i + 1) [] (i + 1))"
      from Cons.IH[OF _ this Cons.prems(3)]
      have "i + 1 \<le> j" "j - (i + 1) < length xs" "s = [xs ! (j - (i + 1))]" by simp_all
      moreover from this(1) have "(x # xs) ! (j - i) = xs ! (j - (i + 1))"
        by (simp add: nth_Cons')
      ultimately show ?thesis by simp
    qed
  qed
qed

lemma operator_char_yields:
  "[c] \<in> set OPERATORS \<Longrightarrow> c \<in> set xs \<Longrightarrow>
   \<exists>j. ([c], j) \<in> set (get_symbols_loop xs i symbol symbol_index)"
proof (induction xs arbitrary: i symbol symbol_index)
  case Nil
  then show ?case by simp
next
  case (Cons x xs)
  from Cons.prems(1) obtain c' where "[c] = [c']" "\<not> isnumeric c'" "c' \<noteq> CHR '' ''"
    by (rule operator_char)
  then have c: "\<not> isnumeric c" "c \<noteq> CHR '' ''" by simp_all
  show ?case
  proof (cases "x = c")
    case True
    with c have "([c], i) \<in> set (get_symbols_loop (x # xs) i symbol symbol_index)" by simp
    then show ?thesis ..
  next
    case False
    with Cons.prems(2) have "c \<in> set xs" by simp
    show ?thesis
    proof (cases "isnumeric x")
      case True
      from Cons.IH[OF Cons.prems(1) \<open>c \<in> set xs\<close>, of "i + 1" "symbol @ [x]" symbol_index]
      show ?thesis using True by simp
    next
      case nn: False
      from Cons.IH[OF Cons.prems(1) \<open>c \<in> set xs\<close>, of "i + 1" "[]" "i + 1"]
      obtain j where "([c], j) \<in> set (get_symbols_loop xs (i + 1) [] (i + 1))" ..
      with nn have "([c], j) \<in> set (get_symbols_loop (x # xs) i symbol symbol_index)" by simp
      then show ?thesis ..
    qed
  qed
qed

lemma operand_char_yields:
  "list_all isnumeric symbol \<Longrightarrow> symbol \<noteq> [] \<or> (\<exists>c\<in>set xs. \<not> blank c) \<Longrightarrow>
   \<exists>p\<in>set (get_symbols_loop xs i symbol symbol_index). \<not> in_parens (fst p)"
proof (induction xs arbitrary: i symbol symbol_index)
  case Nil
  then show ?case by (simp add: numeric_not_in_parens)
next
  case (Cons x xs)
  show ?case
  proof (cases "isnumeric x")
    case True
    with Cons.prems(1) have "list_all isnumeric (symbol @ [x])" by simp
    from Cons.IH[OF this] True show ?thesis by simp
  next
    case False
    show ?thesis
    proof (cases "symbol \<noteq> []")
      case True
      with Cons.prems(1) False show ?thesis by (simp add: numeric_not_in_parens)
    next
      case empty: False
      show ?thesis
      proof (cases "blank x")
        case True
        with Cons.prems(2) empty have "\<exists>c\<in>set xs. \<not> blank c" by simp
        then have "\<exists>p\<in>set (get_symbols_loop xs (i + 1) [] (i + 1)). \<not> in_parens (fst p)"
          by (intro Cons.IH) simp_all
        then obtain p where "p \<in> set (get_symbols_loop xs (i + 1) [] (i + 1))"
          "\<not> in_parens (fst p)" ..
        with False have "p \<in> set (get_symbols_loop (x # xs) i symbol symbol_index)" by simp
        with \<open>\<not> in_parens (fst p)\<close> show ?thesis ..
      next
        case nb: False
        then have "x \<noteq> CHR '' ''" by (simp add: blank_def)
        with False nb show ?thesis by (simp add: single_not_in_parens)
      qed
    qed
  qed
qed

lemma found_operator_mono: "found_operator st S \<Longrightarrow> S \<subseteq> S' \<Longrightarrow> found_operator st S'"
  unfolding found_operator_def by blast

lemma scan_step_cases:
  "scan_step st (s, i) = st\<lparr>brackets_level := brackets_level st + 1\<rparr>
   \<or> scan_step st (s, i) = st\<lparr>brackets_level := brackets_level st - 1\<rparr>
   \<or> scan_step st (s, i) = st
   \<or> (s \<in> set OPERATORS \<and>
       scan_step st (s, i) =
         st\<lparr>lowest_operator := operators_index s, lowest_operator_index := Some i,
            lowest_operator_brackets_level := brackets_level st\<rparr>)"
  by (simp add: scan_step_def)

lemma scan_step_found_operator:
  assumes "found_operator st S"
  shows "found_operator (scan_step st (s, i)) (insert (s, i) S)"
proof -
  have old: "found_operator st (insert (s, i) S)"
    using assms by (rule found_operator_mono) blast
  from scan_step_cases[of st s i] show ?thesis
  proof (elim disjE conjE)
    assume "scan_step st (s, i) = st\<lparr>brackets_level := brackets_level st + 1\<rparr>"
    with old show ?thesis by (simp add: found_operator_def)
  next
    assume "scan_step st (s, i) = st\<lparr>brackets_level := brackets_level st - 1\<rparr>"
    with old show ?thesis by (simp add: found_operator_def)
  next
    assume "scan_step st (s, i) = st"
    with old show ?thesis by simp
  next
    assume "s \<in> set OPERATORS" and "scan_step st (s, i) =
         st\<lparr>lowest_operator := operators_index s, lowest_operator_index := Some i,
            lowest_operator_brackets_level := brackets_level st\<rparr>"
    then show ?thesis by (simp add: found_operator_def) blast
  qed
qed

lemma foldl_scan_step_found_operator:
  "found_operator st S \<Longrightarrow> found_operator (foldl scan_step st syms) (S \<union> set syms)"
proof (induction syms arbitrary: st S)
  case Nil
  then show ?case by simp
next
  case (Cons p ps)
  obtain s i where p: "p = (s, i)" by (cases p)
  from scan_step_found_operator[OF Cons.prems, of s i]
  have "found_operator (scan_step st p) (insert p S)" by (simp add: p)
  from Cons.IH[OF this] show ?case by simp
qed

lemma scan_found_operator:
  assumes "lowest_operator_index (scan xs) = Some i"
  obtains c where "i < length xs" "xs ! i = c" "[c] \<in> set OPERATORS"
    "lowest_operator (scan xs) = operators_index [c]"
proof -
  have "found_operator scan_init {}" by (simp add: found_operator_def scan_init_def)
  from foldl_scan_step_found_operator[OF this, of "get_symbols_indices xs"] assms
  obtain s where s: "(s, i) \<in> set (get_symbols_indices xs)" "s \<in> set OPERATORS"
      "lowest_operator (scan xs) = operators_index s"
    by (auto simp: scan_def found_operator_def)
  from operator_symbol_at[of "[]" s i xs 0 0] s(1,2)
  have "i < length xs" "s = [xs ! i]" by (simp_all add: get_symbols_indices_def)
  with s(2,3) that[of "xs ! i"] show thesis by simp
qed

lemma operands_between_split:
  "[c] \<in> set OPERATORS \<Longrightarrow>
   operands_between seen (xs @ c # ys) = (operands_between seen xs \<and> operands_between False ys)"
  by (induction xs arbitrary: seen) simp_all

lemma operands_between_no_operator:
  "\<forall>c\<in>set xs. [c] \<notin> set OPERATORS \<Longrightarrow>
   operands_between seen xs = (seen \<or> (\<exists>c\<in>set xs. \<not> blank c))"
  by (induction xs arbitrary: seen) auto

lemma from_infix_returns:
  "operands_between False xs \<Longrightarrow> \<exists>t. from_infix xs = Inr t"
proof (induction xs rule: from_infix.induct)
  case (1 xs)
  show ?case
  proof (cases "lowest_operator_index (scan xs)")
    case None
    have noop: "\<forall>c\<in>set xs. [c] \<notin> set OPERATORS"
    proof
      fix c assume "c \<in> set xs"
      show "[c] \<notin> set OPERATORS"
      proof
        assume op: "[c] \<in> set OPERATORS"
        from operator_char_yields[OF op \<open>c \<in> set xs\<close>, of 0 "[]" 0]
        have "[c] \<in> set (get_symbols xs)" by (force simp: get_symbols_def)
        from scan_none_no_operator[OF None this] op show False by simp
      qed
    qed
    with "1.prems" have "\<exists>c\<in>set xs. \<not> blank c"
      by (simp add: operands_between_no_operator)
    then have "\<exists>p\<in>set (get_symbols_loop xs 0 [] 0). \<not> in_parens (fst p)"
      by (intro operand_char_yields) simp_all
    then have "first_operand (get_symbols xs) \<noteq> None"
      by (simp add: first_operand_def get_symbols_def find_None_iff)
    then obtain s where "first_operand (get_symbols xs) = Some s" by blast
    with None show ?thesis by (simp add: from_infix.simps[of xs])
  next
    case (Some i)
    from Some obtain c where c: "i < length xs" "xs ! i = c" "[c] \<in> set OPERATORS"
      "lowest_operator (scan xs) = operators_index [c]"
      by (rule scan_found_operator)
    from c(1,2) have "xs = take i xs @ c # drop (i + 1) xs"
      using id_take_nth_drop[of i xs] by simp
    with "1.prems" have "operands_between False (take i xs @ c # drop (i + 1) xs)" by simp
    with c(3) have ok: "operands_between False (take i xs)"
      "operands_between False (drop (i + 1) xs)"
      by (simp_all add: operands_between_split)
    from "1.IH"(1)[OF Some ok(1)] obtain l where l: "from_infix (take i xs) = Inr l" ..
    from "1.IH"(2)[OF Some l ok(2)] obtain r where r: "from_infix (drop (i + 1) xs) = Inr r" ..
    from l r show ?thesis
      by (simp add: from_infix.simps[of xs] Some c(4) operators_at_index[OF c(3)])
  qed
qed

lemma digit_cases:
  assumes "digit c"
  shows "[c] \<notin> set OPERATORS" "\<not> blank c"
proof -
  from assms have c: "c = CHR ''0'' \<or> c = CHR ''1'' \<or> c = CHR ''2'' \<or> c = CHR ''3''
      \<or> c = CHR ''4'' \<or> c = CHR ''5'' \<or> c = CHR ''6'' \<or> c = CHR ''7'' \<or> c = CHR ''8''
      \<or> c = CHR ''9''"
    by (simp add: digit_def)
  from c show "[c] \<notin> set OPERATORS" by (elim disjE) (simp_all add: OPERATORS_def)
  from c show "\<not> blank c" by (elim disjE) (simp_all add: blank_def)
qed

lemma blank_not_operator: "blank c \<Longrightarrow> [c] \<notin> set OPERATORS"
  unfolding blank_def by (elim disjE) (simp_all add: OPERATORS_def)

lemma operands_between_mono:
  "operands_between seen xs \<Longrightarrow> (seen \<Longrightarrow> seen') \<Longrightarrow> operands_between seen' xs"
proof (induction xs arbitrary: seen seen')
  case Nil
  then show ?case by simp
next
  case (Cons c cs)
  show ?case
  proof (cases "[c] \<in> set OPERATORS")
    case True
    with Cons.prems show ?thesis by simp
  next
    case False
    with Cons.prems(1) have "operands_between (seen \<or> \<not> blank c) cs" by simp
    then have "operands_between (seen' \<or> \<not> blank c) cs"
      by (rule Cons.IH) (use Cons.prems(2) in blast)
    with False show ?thesis by simp
  qed
qed

lemma operands_between_blank_before:
  assumes "operands_between False xs" "blank c"
  shows "operands_between False (c # xs)"
  using assms blank_not_operator[OF assms(2)] by simp

lemma operands_between_blank_after:
  "operands_between seen xs \<Longrightarrow> blank c \<Longrightarrow> operands_between seen (xs @ [c])"
  by (induction xs arbitrary: seen) (simp_all add: blank_not_operator)

lemma valid_infix_operands_between:
  "valid_infix E \<Longrightarrow> operands_between False E"
proof (induction rule: valid_infix.induct)
  case (number ds)
  then obtain c cs where ds: "ds = c # cs" by (cases ds) simp_all
  from number(2) have "\<forall>c\<in>set ds. [c] \<notin> set OPERATORS"
    by (simp add: list_all_iff digit_cases)
  moreover from number(2) ds have "\<not> blank c" by (simp add: digit_cases)
  then have "\<exists>c\<in>set ds. \<not> blank c" using ds by simp
  ultimately show ?case by (simp add: operands_between_no_operator)
next
  case (parens e)
  have "blank CHR ''(''" "blank CHR '')''" by (simp_all add: blank_def)
  with parens.IH have "operands_between False (CHR ''('' # (e @ [CHR '')'']))"
    by (intro operands_between_blank_before operands_between_blank_after)
  then show ?case by simp
next
  case (binary a s b)
  from binary(2) obtain c where "s = [c]" by (rule operator_char)
  with binary show ?case by (simp add: operands_between_split)
next
  case (space_before e)
  have "blank CHR '' ''" by (simp add: blank_def)
  with space_before.IH have "operands_between False (CHR '' '' # e)"
    by (intro operands_between_blank_before)
  then show ?case by simp
next
  case (space_after e)
  have "blank CHR '' ''" by (simp add: blank_def)
  with space_after.IH show ?case
    by (intro operands_between_blank_after)
qed

text \<open>
  C6. For every valid infix expression \<open>E\<close>, \<^verbatim>\<open>from_infix\<close> returns a tree \<open>t\<close>, and
  building from the infix rendering of \<open>t\<close> returns \<open>t\<close> again; so the rendering of the
  second tree is the rendering of the first, which a further pass leaves as it is.
\<close>

theorem from_infix_get_infix_idempotent:
  assumes "valid_infix E"
  shows "\<exists>t. from_infix E = Inr t \<and> from_infix (get_infix t None) = Inr t"
proof -
  from assms have "operands_between False E" by (rule valid_infix_operands_between)
  then obtain t where "from_infix E = Inr t" using from_infix_returns by blast
  moreover from this have "from_infix (get_infix t None) = Inr t"
    by (rule from_infix_get_infix_fixed)
  ultimately show ?thesis by blast
qed

theorem from_infix_get_infix_idempotent_witness:
  "valid_infix ''(8 - 3) * 12''
   \<and> from_infix ''(8 - 3) * 12'' =
       Inr (BinaryExpressionTree
              (Node ''*''
                 (Some (Node ''-'' (Some (Node ''8'' None None)) (Some (Node ''3'' None None))))
                 (Some (Node ''12'' None None))))
   \<and> get_infix
        (BinaryExpressionTree
           (Node ''*''
              (Some (Node ''-'' (Some (Node ''8'' None None)) (Some (Node ''3'' None None))))
              (Some (Node ''12'' None None)))) None
      = ''((8 - 3) * 12)''
   \<and> from_infix ''((8 - 3) * 12)'' =
       Inr (BinaryExpressionTree
              (Node ''*''
                 (Some (Node ''-'' (Some (Node ''8'' None None)) (Some (Node ''3'' None None))))
                 (Some (Node ''12'' None None))))"
proof -
  have v8: "valid_infix (''8'' @ '' '')"
    by (rule valid_infix.space_after, rule valid_infix.number) (simp_all add: digit_def)
  have v3: "valid_infix ('' '' @ ''3'')"
    by (rule valid_infix.space_before, rule valid_infix.number) (simp_all add: digit_def)
  have v12: "valid_infix ('' '' @ ''12'')"
    by (rule valid_infix.space_before, rule valid_infix.number) (simp_all add: digit_def)
  have "valid_infix ((''8'' @ '' '') @ ''-'' @ ('' '' @ ''3''))"
    using v8 _ v3 by (rule valid_infix.binary) (simp add: OPERATORS_def)
  then have "valid_infix ((''('' @ ((''8'' @ '' '') @ ''-'' @ ('' '' @ ''3'')) @ '')'') @ '' '')"
    by (intro valid_infix.space_after valid_infix.parens)
  then have "valid_infix (((''('' @ ((''8'' @ '' '') @ ''-'' @ ('' '' @ ''3'')) @ '')'') @ '' '')
      @ ''*'' @ ('' '' @ ''12''))"
    using _ v12 by (rule valid_infix.binary) (simp add: OPERATORS_def)
  then have valid: "valid_infix ''(8 - 3) * 12''" by simp
  from from_infix_get_infix_idempotent[OF valid] obtain t where
    t: "from_infix ''(8 - 3) * 12'' = Inr t" "from_infix (get_infix t None) = Inr t" by blast
  have v: "from_infix ''(8 - 3) * 12'' =
       Inr (BinaryExpressionTree
              (Node ''*''
                 (Some (Node ''-'' (Some (Node ''8'' None None)) (Some (Node ''3'' None None))))
                 (Some (Node ''12'' None None))))"
    by code_simp
  have g: "get_infix
        (BinaryExpressionTree
           (Node ''*''
              (Some (Node ''-'' (Some (Node ''8'' None None)) (Some (Node ''3'' None None))))
              (Some (Node ''12'' None None)))) None
      = ''((8 - 3) * 12)''"
    by code_simp
  from t v have "t = BinaryExpressionTree
              (Node ''*''
                 (Some (Node ''-'' (Some (Node ''8'' None None)) (Some (Node ''3'' None None))))
                 (Some (Node ''12'' None None)))" by simp
  with t(2) g valid v show ?thesis by simp
qed

section \<open>Leaves and internal nodes of the trees built\<close>

lemma digit_numeric: "digit c \<Longrightarrow> isnumeric c"
  unfolding isnumeric_def digit_def set_append by (rule UnI1)

lemma expression_char_cases:
  assumes "expression_char c" "\<not> isnumeric c" "c \<noteq> CHR '' ''"
  shows "[c] \<in> set OPERATORS \<or> parenthesis [c]"
proof -
  from assms(2) have "\<not> digit c" using digit_numeric by blast
  with assms(1,3) have "[c] \<in> set OPERATORS \<or> c = CHR ''('' \<or> c = CHR '')''"
    by (simp add: expression_char_def)
  then show ?thesis by (simp add: parenthesis_def)
qed

lemma expression_char_digit:
  assumes "expression_char c" "isnumeric c"
  shows "digit c"
proof (rule ccontr)
  assume "\<not> digit c"
  with assms(1) have "[c] \<in> set OPERATORS \<or> c = CHR '' '' \<or> c = CHR ''('' \<or> c = CHR '')''"
    by (simp add: expression_char_def)
  then show False
  proof (elim disjE)
    assume "[c] \<in> set OPERATORS"
    then obtain c' where "[c] = [c']" "\<not> isnumeric c'" by (rule operator_char)
    with assms(2) show False by simp
  qed (use assms(2) in simp_all)
qed

lemma expression_symbols:
  "list_all expression_char xs \<Longrightarrow> list_all digit symbol \<Longrightarrow>
   (s, j) \<in> set (get_symbols_loop xs i symbol symbol_index) \<Longrightarrow>
   numeric_literal s \<or> s \<in> set OPERATORS \<or> parenthesis s"
proof (induction xs arbitrary: i symbol symbol_index)
  case Nil
  then show ?case by (simp add: numeric_literal_def split: if_splits)
next
  case (Cons c cs)
  from Cons.prems(1) have c: "expression_char c" and cs: "list_all expression_char cs"
    by simp_all
  show ?case
  proof (cases "isnumeric c")
    case True
    with c have "digit c" by (rule expression_char_digit)
    with Cons.prems(2) have "list_all digit (symbol @ [c])" by simp
    moreover from True Cons.prems(3)
    have "(s, j) \<in> set (get_symbols_loop cs (i + 1) (symbol @ [c]) symbol_index)" by simp
    ultimately show ?thesis using Cons.IH[OF cs] by blast
  next
    case False
    with Cons.prems(3) have "(s = symbol \<and> symbol \<noteq> []) \<or> (s = [c] \<and> c \<noteq> CHR '' '')
        \<or> (s, j) \<in> set (get_symbols_loop cs (i + 1) [] (i + 1))"
      by (simp split: if_splits) blast+
    then show ?thesis
    proof (elim disjE)
      assume "s = symbol \<and> symbol \<noteq> []"
      with Cons.prems(2) show ?thesis by (simp add: numeric_literal_def)
    next
      assume "s = [c] \<and> c \<noteq> CHR '' ''"
      with expression_char_cases[OF c False] show ?thesis by simp
    next
      assume "(s, j) \<in> set (get_symbols_loop cs (i + 1) [] (i + 1))"
      with Cons.IH[OF cs, of "[]"] show ?thesis by simp
    qed
  qed
qed

lemma get_symbols_expression:
  assumes "list_all expression_char xs" "s \<in> set (get_symbols xs)"
  shows "numeric_literal s \<or> s \<in> set OPERATORS \<or> parenthesis s"
proof -
  from assms(2) obtain j where "(s, j) \<in> set (get_symbols_loop xs 0 [] 0)"
    by (auto simp: get_symbols_def)
  with expression_symbols[OF assms(1), of "[]"] show ?thesis by simp
qed

lemma parenthesis_in_parens: "parenthesis s \<Longrightarrow> in_parens s"
  unfolding parenthesis_def in_parens_def by (elim disjE) simp_all

lemma from_postfix_expression:
  assumes "from_postfix xs = Inr t" "list_all expression_char xs"
  shows "tree_inv (\<lambda>d. numeric_literal d \<or> parenthesis d) (root t)"
  using assms(1)
proof (rule from_postfix_tree_inv)
  fix s assume "s \<in> set (get_symbols xs)" "s \<notin> set OPERATORS"
  with get_symbols_expression[OF assms(2)] show "numeric_literal s \<or> parenthesis s" by blast
qed

lemma list_all_take_drop:
  "list_all P xs \<Longrightarrow> list_all P (take k xs) \<and> list_all P (drop k xs)"
  by (auto simp: list_all_iff dest: in_set_takeD in_set_dropD)

lemma from_infix_expression:
  "from_infix xs = Inr t \<Longrightarrow> list_all expression_char xs \<Longrightarrow> tree_inv numeric_literal (root t)"
proof (induction xs arbitrary: t rule: from_infix.induct)
  case (1 xs)
  note ec = "1.prems"(2)
  show ?case
  proof (cases "lowest_operator_index (scan xs)")
    case None
    with "1.prems"(1) obtain s where s: "first_operand (get_symbols xs) = Some s"
        "t = BinaryExpressionTree (Node s None None)"
      by (auto simp: from_infix.simps[of xs] split: option.splits)
    from first_operand_Some[OF s(1)] have in_s: "s \<in> set (get_symbols xs)" "\<not> in_parens s"
      by simp_all
    from scan_none_no_operator[OF None in_s(1)] have "s \<notin> set OPERATORS" .
    moreover from in_s(2) have "\<not> parenthesis s" using parenthesis_in_parens by blast
    ultimately have "numeric_literal s" using get_symbols_expression[OF ec in_s(1)] by blast
    with s(2) show ?thesis by simp
  next
    case (Some i)
    with "1.prems"(1) obtain l r d where parts: "from_infix (take i xs) = Inr l"
        "from_infix (drop (i + 1) xs) = Inr r"
        "operators_at (lowest_operator (scan xs)) = Inr d"
        "t = BinaryExpressionTree (Node d (Some (root l)) (Some (root r)))"
      by (auto simp: from_infix.simps[of xs] split: sum.splits)
    from list_all_take_drop[OF ec] have ecs: "list_all expression_char (take i xs)"
        "list_all expression_char (drop (i + 1) xs)" by blast+
    from "1.IH"(1)[OF Some parts(1) ecs(1)] "1.IH"(2)[OF Some parts(1) parts(2) ecs(2)]
      operators_at_Inr[OF parts(3)] parts(4)
    show ?thesis by simp
  qed
qed

lemma is_leaf_childless: "is_leaf n \<longleftrightarrow> childless n \<and> numeric_literal (data n)"
  by (simp add: is_leaf_def childless_def)

text \<open>
  C8, as the specification states it, fails: \<^verbatim>\<open>from_postfix\<close> returns, for "3 ( +", a tree
  with a reachable node that has no children and the parenthesis "(" as data, which is
  neither an operand nor one of the four operators.
\<close>

theorem built_nodes_leaf_or_internal_counterexample:
  "from_postfix ''3 ( +'' =
     Inr (BinaryExpressionTree
            (Node ''+'' (Some (Node ''3'' None None)) (Some (Node ''('' None None))))
   \<and> nodes_of (root (BinaryExpressionTree
            (Node ''+'' (Some (Node ''3'' None None)) (Some (Node ''('' None None))))) =
       [Node ''+'' (Some (Node ''3'' None None)) (Some (Node ''('' None None)),
        Node ''3'' None None, Node ''('' None None]
   \<and> \<not> is_leaf (Node ''('' None None)
   \<and> \<not> is_internal (Node ''('' None None)"
  by code_simp

text \<open>
  C8, amended. In a tree returned by \<^verbatim>\<open>from_postfix\<close> or by \<^verbatim>\<open>from_infix\<close>, every reachable
  node has no children and data that is not one of the four operators, or has both
  children and one of the four operators as data; none has exactly one child. No node
  of a tree returned by \<^verbatim>\<open>from_infix\<close> holds a parenthesis. When the text consists of
  digits, the four operators, spaces and parentheses, every reachable node of a tree
  returned by \<^verbatim>\<open>from_infix\<close> is a leaf (no children, an operand as data) or an internal
  node, and every reachable node of a tree returned by \<^verbatim>\<open>from_postfix\<close> is a leaf, an
  internal node, or a node without children that holds a parenthesis.
\<close>

theorem built_nodes_leaf_or_internal:
  assumes "from_postfix E = Inr t \<or> from_infix E = Inr t"
    and "n \<in> set (nodes_of (root t))"
  shows "((childless n \<and> data n \<notin> set OPERATORS) \<or> is_internal n)
     \<and> \<not> has_one_child n
     \<and> (from_infix E = Inr t \<longrightarrow> \<not> parenthesis (data n))
     \<and> (list_all expression_char E \<and> from_infix E = Inr t \<longrightarrow> is_leaf n \<or> is_internal n)
     \<and> (list_all expression_char E \<and> from_postfix E = Inr t \<longrightarrow>
          is_leaf n \<or> is_internal n \<or> (childless n \<and> parenthesis (data n)))"
proof (intro conjI impI)
  from assms(1) have "tree_inv leaf_symbol (root t) \<or> tree_inv infix_leaf_symbol (root t)"
    using from_postfix_inv from_infix_inv by blast
  then have shape: "((childless n \<and> data n \<notin> set OPERATORS) \<or> is_internal n)
      \<and> \<not> has_one_child n"
  proof
    assume "tree_inv leaf_symbol (root t)"
    from tree_inv_nodes_of[OF this assms(2)] show ?thesis by (simp add: leaf_symbol_def) blast
  next
    assume "tree_inv infix_leaf_symbol (root t)"
    from tree_inv_nodes_of[OF this assms(2)] show ?thesis
      by (simp add: infix_leaf_symbol_def leaf_symbol_def) blast
  qed
  from shape show "(childless n \<and> data n \<notin> set OPERATORS) \<or> is_internal n" ..
  from shape show "\<not> has_one_child n" ..
next
  assume "from_infix E = Inr t"
  then have "tree_inv infix_leaf_symbol (root t)" by (rule from_infix_inv)
  from tree_inv_nodes_of[OF this assms(2)]
  have "(childless n \<and> \<not> in_parens (data n)) \<or> data n \<in> set OPERATORS"
    by (simp add: infix_leaf_symbol_def is_internal_def) blast
  then show "\<not> parenthesis (data n)"
    using parenthesis_in_parens[of "data n"] operator_not_paren[of "data n"]
    by (auto simp: parenthesis_def)
next
  assume "list_all expression_char E \<and> from_infix E = Inr t"
  then have "tree_inv numeric_literal (root t)" using from_infix_expression by blast
  from tree_inv_nodes_of[OF this assms(2)] show "is_leaf n \<or> is_internal n"
    by (simp add: is_leaf_childless)
next
  assume "list_all expression_char E \<and> from_postfix E = Inr t"
  then have "tree_inv (\<lambda>d. numeric_literal d \<or> parenthesis d) (root t)"
    using from_postfix_expression by blast
  from tree_inv_nodes_of[OF this assms(2)]
  show "is_leaf n \<or> is_internal n \<or> (childless n \<and> parenthesis (data n))"
    by (auto simp: is_leaf_childless)
qed

theorem built_nodes_leaf_or_internal_witness:
  "from_infix ''3 + 4'' =
     Inr (BinaryExpressionTree
            (Node ''+'' (Some (Node ''3'' None None)) (Some (Node ''4'' None None))))
   \<and> list_all expression_char ''3 + 4''
   \<and> Node ''3'' None None \<in> set (nodes_of (root (BinaryExpressionTree
            (Node ''+'' (Some (Node ''3'' None None)) (Some (Node ''4'' None None))))))
   \<and> is_leaf (Node ''3'' None None)
   \<and> from_postfix ''3 4 +'' =
     Inr (BinaryExpressionTree
            (Node ''+'' (Some (Node ''3'' None None)) (Some (Node ''4'' None None))))
   \<and> list_all expression_char ''3 4 +''
   \<and> Node ''+'' (Some (Node ''3'' None None)) (Some (Node ''4'' None None))
       \<in> set (nodes_of (root (BinaryExpressionTree
            (Node ''+'' (Some (Node ''3'' None None)) (Some (Node ''4'' None None))))))
   \<and> is_internal (Node ''+'' (Some (Node ''3'' None None)) (Some (Node ''4'' None None)))
   \<and> from_postfix ''3 ( +'' =
     Inr (BinaryExpressionTree
            (Node ''+'' (Some (Node ''3'' None None)) (Some (Node ''('' None None))))
   \<and> list_all expression_char ''3 ( +''
   \<and> Node ''('' None None \<in> set (nodes_of (root (BinaryExpressionTree
            (Node ''+'' (Some (Node ''3'' None None)) (Some (Node ''('' None None))))))
   \<and> childless (Node ''('' None None)
   \<and> parenthesis (data (Node ''('' None None))"
proof -
  let ?t = "BinaryExpressionTree
      (Node ''+'' (Some (Node ''3'' None None)) (Some (Node ''4'' None None)))"
  let ?u = "BinaryExpressionTree
      (Node ''+'' (Some (Node ''3'' None None)) (Some (Node ''('' None None)))"
  have i: "from_infix ''3 + 4'' = Inr ?t" by code_simp
  have ie: "list_all expression_char ''3 + 4''" by code_simp
  have n3: "Node ''3'' None None \<in> set (nodes_of (root ?t))" by simp
  have p: "from_postfix ''3 4 +'' = Inr ?t" by code_simp
  have pe: "list_all expression_char ''3 4 +''" by code_simp
  have nr: "root ?t \<in> set (nodes_of (root ?t))" by simp
  have q: "from_postfix ''3 ( +'' = Inr ?u" by code_simp
  have qe: "list_all expression_char ''3 ( +''" by code_simp
  have np: "Node ''('' None None \<in> set (nodes_of (root ?u))" by simp
  from built_nodes_leaf_or_internal[OF disjI2[OF i] n3] i ie
  have "is_leaf (Node ''3'' None None) \<or> is_internal (Node ''3'' None None)" by blast
  then have a: "is_leaf (Node ''3'' None None)" by (simp add: is_internal_def)
  from built_nodes_leaf_or_internal[OF disjI1[OF p] nr] p pe
  have "is_leaf (root ?t) \<or> is_internal (root ?t)
      \<or> (childless (root ?t) \<and> parenthesis (data (root ?t)))"
    by blast
  then have b: "is_internal (root ?t)" by (simp add: is_leaf_def childless_def)
  from built_nodes_leaf_or_internal[OF disjI1[OF q] np] q qe
  have "is_leaf (Node ''('' None None) \<or> is_internal (Node ''('' None None)
      \<or> (childless (Node ''('' None None) \<and> parenthesis (data (Node ''('' None None)))"
    by blast
  then have c: "childless (Node ''('' None None) \<and> parenthesis (data (Node ''('' None None))"
    by (simp add: is_leaf_def is_internal_def childless_def parenthesis_def)
  from i ie n3 a p pe nr b q qe np c show ?thesis by simp
qed

end
